theory Spec2Isabelle
  imports Main "HOL-Library.Word" "HOL-Library.Multiset"
begin

section \<open>The ChainCheck contract: data model\<close>

text \<open>
  The contract is a Solidity 0.8 program. Its value types are machine words:
  an address has 160 bits, a \<open>bytes32\<close> and a \<open>uint256\<close> have 256 bits.
\<close>

type_synonym address = "160 word"
type_synonym bytes32 = "256 word"
type_synonym uint256 = "256 word"

text \<open>
  The custom errors of the contract, in the order of their declaration. A
  \<open>require\<close> with a message reverts with \<open>Error\<close> carrying that message, and
  the checked arithmetic of Solidity 0.8 reverts with \<open>Panic\<close> on overflow.
\<close>

datatype error =
    NotOwner
  | NotAuthorized
  | InvalidAddress
  | InvalidBatchId
  | BatchExists
  | BatchNotFound
  | EmptyName
  | EmptyBrand
  | NoSerials
  | InvalidOwner
  | ContractPaused
  | ContractNotPaused
  | SerialNotInBatch
  | Error string
  | Panic

record Product =
  name :: string
  brand :: string
  exists :: bool
  registeredAt :: uint256
  ipfsHash :: string
  description :: string
  imageUrl :: string

record VerificationRecord =
  serialHash :: bytes32
  batchId :: uint256
  verifier :: address
  timestamp :: uint256
  isAuthentic :: bool

datatype event =
    ProductRegistered uint256 string string uint256
  | Verified bytes32 uint256 bool address uint256
  | ManufacturerAuthorized address bool
  | Paused bool

text \<open>
  The storage of the contract. A Solidity mapping is total: a key that was never
  written reads as the zero value of the value type, so each mapping is a HOL
  function. \<open>locked\<close> is the storage variable \<open>_locked\<close> of the reentrancy
  guard. \<open>events\<close> is the log of emitted events, oldest first.
\<close>

record contract =
  locked :: uint256
  serialVerified :: "bytes32 \<Rightarrow> bool"
  serialToBatch :: "bytes32 \<Rightarrow> uint256"
  products :: "uint256 \<Rightarrow> Product"
  authorizedMakers :: "address \<Rightarrow> bool"
  owner :: address
  totalProducts :: uint256
  totalVerifications :: uint256
  batchVerificationCount :: "uint256 \<Rightarrow> uint256"
  manufacturerList :: "address list"
  paused :: bool
  verificationHistory :: "bytes32 \<Rightarrow> VerificationRecord list"
  events :: "event list"

text \<open>
  A call either reverts with an error, and then the storage and the log are
  what they were before the call, or it returns the new storage with its
  return value.
\<close>

type_synonym 'a result = "error + contract \<times> 'a"

text \<open>The increment \<open>x++\<close> on a \<open>uint256\<close> under checked arithmetic.\<close>

definition checked_inc :: "uint256 \<Rightarrow> error + uint256" where
  "checked_inc x = (if unat x + 1 < 2 ^ 256 then Inr (x + 1) else Inl Panic)"

section \<open>Modifiers\<close>

definition nonReentrant :: "contract \<Rightarrow> (contract \<Rightarrow> 'a result) \<Rightarrow> 'a result" where
  "nonReentrant s body =
     (if \<not> locked s \<noteq> 1 then Inl (Error ''ReentrancyGuard: reentrant call'')
      else case body (s\<lparr>locked := 1\<rparr>) of
             Inl e \<Rightarrow> Inl e
           | Inr (s', r) \<Rightarrow> Inr (s'\<lparr>locked := 0\<rparr>, r))"

definition onlyOwner :: "contract \<Rightarrow> address \<Rightarrow> (contract \<Rightarrow> 'a result) \<Rightarrow> 'a result" where
  "onlyOwner s msg_sender body =
     (if msg_sender \<noteq> owner s then Inl NotOwner else body s)"

definition onlyMaker :: "contract \<Rightarrow> address \<Rightarrow> (contract \<Rightarrow> 'a result) \<Rightarrow> 'a result" where
  "onlyMaker s msg_sender body =
     (if \<not> authorizedMakers s msg_sender then Inl NotAuthorized else body s)"

definition whenNotPaused :: "contract \<Rightarrow> (contract \<Rightarrow> 'a result) \<Rightarrow> 'a result" where
  "whenNotPaused s body = (if paused s then Inl ContractPaused else body s)"

definition whenPaused :: "contract \<Rightarrow> (contract \<Rightarrow> 'a result) \<Rightarrow> 'a result" where
  "whenPaused s body = (if \<not> paused s then Inl ContractNotPaused else body s)"

section \<open>Operations\<close>

text \<open>
  The storage right after deployment by \<open>msg_sender\<close>: every variable has its
  zero value except those the constructor writes.
\<close>

definition constructor :: "address \<Rightarrow> contract" where
  "constructor msg_sender =
     \<lparr> locked = 0,
       serialVerified = (\<lambda>_. False),
       serialToBatch = (\<lambda>_. 0),
       products = (\<lambda>_. \<lparr> name = [], brand = [], exists = False, registeredAt = 0,
                           ipfsHash = [], description = [], imageUrl = [] \<rparr>),
       authorizedMakers = (\<lambda>_. False)(msg_sender := True),
       owner = msg_sender,
       totalProducts = 0,
       totalVerifications = 0,
       batchVerificationCount = (\<lambda>_. 0),
       manufacturerList = [msg_sender],
       paused = False,
       verificationHistory = (\<lambda>_. []),
       events = [ManufacturerAuthorized msg_sender True] \<rparr>"

text \<open>
  The removal loop of \<open>authorizeManufacturer\<close>: the first index holding
  \<open>maker\<close> receives the last element, the list loses its last element, and
  the loop stops.
\<close>

function remove_loop :: "nat \<Rightarrow> address list \<Rightarrow> address \<Rightarrow> address list" where
  "remove_loop i list maker =
     (if i < length list then
        if list ! i = maker then butlast (list[i := list ! (length list - 1)])
        else remove_loop (i + 1) list maker
      else list)"
  by pat_completeness auto
termination
  by (relation "measure (\<lambda>(i, list, maker). length list - i)") auto

definition authorizeManufacturer ::
  "contract \<Rightarrow> address \<Rightarrow> address \<Rightarrow> bool \<Rightarrow> unit result" where
  "authorizeManufacturer s msg_sender maker authorized =
     onlyOwner s msg_sender (\<lambda>s. nonReentrant s (\<lambda>s.
       if maker = 0 then Inl InvalidAddress
       else
         let wasAuthorized = authorizedMakers s maker;
             s = s\<lparr>authorizedMakers := (authorizedMakers s)(maker := authorized)\<rparr>;
             s = (if authorized \<and> \<not> wasAuthorized then
                    s\<lparr>manufacturerList := manufacturerList s @ [maker]\<rparr>
                  else if \<not> authorized \<and> wasAuthorized then
                    s\<lparr>manufacturerList := remove_loop 0 (manufacturerList s) maker\<rparr>
                  else s)
         in Inr (s\<lparr>events := events s @ [ManufacturerAuthorized maker authorized]\<rparr>, ())))"

text \<open>The loop of \<open>registerProduct\<close> that records the batch of every serial.\<close>

function register_loop :: "nat \<Rightarrow> bytes32 list \<Rightarrow> uint256 \<Rightarrow> (bytes32 \<Rightarrow> uint256) \<Rightarrow> (bytes32 \<Rightarrow> uint256)" where
  "register_loop i serialHashes b m =
     (if i < length serialHashes then
        register_loop (i + 1) serialHashes b (m(serialHashes ! i := b))
      else m)"
  by pat_completeness auto
termination
  by (relation "measure (\<lambda>(i, serialHashes, b, m). length serialHashes - i)") auto

definition registerProduct ::
  "contract \<Rightarrow> address \<Rightarrow> uint256 \<Rightarrow> uint256 \<Rightarrow> string \<Rightarrow> string \<Rightarrow> bytes32 list \<Rightarrow>
   string \<Rightarrow> string \<Rightarrow> string \<Rightarrow> unit result" where
  "registerProduct s msg_sender block_timestamp \<equiv>
     \<lambda>batchId name brand serialHashes ipfsHash description imageUrl.
     onlyMaker s msg_sender (\<lambda>s. whenNotPaused s (\<lambda>s. nonReentrant s (\<lambda>s.
       if batchId = 0 then Inl InvalidBatchId
       else if length name = 0 then Inl EmptyName
       else if length brand = 0 then Inl EmptyBrand
       else if length serialHashes = 0 then Inl NoSerials
       else if exists (products s batchId) then Inl BatchExists
       else
         let s = s\<lparr>products := (products s)(batchId :=
                     \<lparr> name = name, brand = brand, exists = True,
                       registeredAt = block_timestamp, ipfsHash = ipfsHash,
                       description = description, imageUrl = imageUrl \<rparr>)\<rparr>;
             s = s\<lparr>serialToBatch := register_loop 0 serialHashes batchId (serialToBatch s)\<rparr>
         in case checked_inc (totalProducts s) of
              Inl e \<Rightarrow> Inl e
            | Inr n \<Rightarrow>
                Inr (s\<lparr>totalProducts := n,
                       events := events s @
                         [ProductRegistered batchId name brand (of_nat (length serialHashes))]\<rparr>,
                     ()))))"

definition verify ::
  "contract \<Rightarrow> address \<Rightarrow> uint256 \<Rightarrow> bytes32 \<Rightarrow> uint256 \<Rightarrow> bool result" where
  "verify s msg_sender block_timestamp \<equiv> \<lambda>serialHash batchId.
     whenNotPaused s (\<lambda>s. nonReentrant s (\<lambda>s.
       if batchId = 0 then Inl InvalidBatchId
       else if \<not> exists (products s batchId) then Inl BatchNotFound
       else if serialToBatch s serialHash \<noteq> batchId then Inl SerialNotInBatch
       else
         let isAuthentic = \<not> serialVerified s serialHash in
         case (if isAuthentic then
                 case checked_inc (totalVerifications s) of
                   Inl e \<Rightarrow> Inl e
                 | Inr tv \<Rightarrow>
                     (case checked_inc (batchVerificationCount s batchId) of
                        Inl e \<Rightarrow> Inl e
                      | Inr bc \<Rightarrow>
                          Inr (s\<lparr>serialVerified := (serialVerified s)(serialHash := True),
                                 totalVerifications := tv,
                                 batchVerificationCount :=
                                   (batchVerificationCount s)(batchId := bc)\<rparr>))
               else Inr s) of
           Inl e \<Rightarrow> Inl e
         | Inr s \<Rightarrow>
             let timestamp = block_timestamp;
                 s = s\<lparr>verificationHistory := (verificationHistory s)(serialHash :=
                         verificationHistory s serialHash @
                           [\<lparr> serialHash = serialHash, batchId = batchId,
                              verifier = msg_sender, timestamp = timestamp,
                              isAuthentic = isAuthentic \<rparr>])\<rparr>
             in Inr (s\<lparr>events := events s @
                        [Verified serialHash batchId isAuthentic msg_sender timestamp]\<rparr>,
                     isAuthentic)))"

definition transferOwnership :: "contract \<Rightarrow> address \<Rightarrow> address \<Rightarrow> unit result" where
  "transferOwnership s msg_sender newOwner =
     onlyOwner s msg_sender (\<lambda>s. nonReentrant s (\<lambda>s.
       if newOwner = 0 then Inl InvalidAddress
       else if newOwner = owner s then Inl InvalidOwner
       else
         let oldOwner = owner s;
             s = s\<lparr>owner := newOwner\<rparr>;
             s = s\<lparr>authorizedMakers := (authorizedMakers s)(oldOwner := False)\<rparr>;
             s = s\<lparr>authorizedMakers := (authorizedMakers s)(newOwner := True)\<rparr>
         in Inr (s\<lparr>events := events s @
                    [ManufacturerAuthorized oldOwner False,
                     ManufacturerAuthorized newOwner True]\<rparr>, ())))"

text \<open>
  The loop of \<open>batchVerify\<close>, from index \<open>i\<close>, over the storage and the
  array of results. It runs only on arrays of the same length.
\<close>

function batchVerify_loop ::
  "nat \<Rightarrow> bytes32 list \<Rightarrow> uint256 list \<Rightarrow> address \<Rightarrow> uint256 \<Rightarrow> contract \<Rightarrow> bool list \<Rightarrow>
   (bool list) result" where
  "batchVerify_loop i serialHashes batchIds msg_sender block_timestamp s results =
     (if i < length serialHashes then
        if batchIds ! i = 0 then
          batchVerify_loop (i + 1) serialHashes batchIds msg_sender block_timestamp s
            (results[i := False])
        else if \<not> exists (products s (batchIds ! i)) then
          batchVerify_loop (i + 1) serialHashes batchIds msg_sender block_timestamp s
            (results[i := False])
        else if serialToBatch s (serialHashes ! i) \<noteq> batchIds ! i then
          batchVerify_loop (i + 1) serialHashes batchIds msg_sender block_timestamp s
            (results[i := False])
        else
          let isAuthentic = \<not> serialVerified s (serialHashes ! i);
              results = results[i := isAuthentic]
          in case (if isAuthentic then
                     case checked_inc (totalVerifications s) of
                       Inl e \<Rightarrow> Inl e
                     | Inr tv \<Rightarrow>
                         (case checked_inc (batchVerificationCount s (batchIds ! i)) of
                            Inl e \<Rightarrow> Inl e
                          | Inr bc \<Rightarrow>
                              Inr (s\<lparr>serialVerified :=
                                       (serialVerified s)(serialHashes ! i := True),
                                     totalVerifications := tv,
                                     batchVerificationCount :=
                                       (batchVerificationCount s)(batchIds ! i := bc)\<rparr>))
                   else Inr s) of
               Inl e \<Rightarrow> Inl e
             | Inr s \<Rightarrow>
                 let verifyTimestamp = block_timestamp;
                     s = s\<lparr>verificationHistory := (verificationHistory s)(serialHashes ! i :=
                             verificationHistory s (serialHashes ! i) @
                               [\<lparr> serialHash = serialHashes ! i, batchId = batchIds ! i,
                                  verifier = msg_sender, timestamp = verifyTimestamp,
                                  isAuthentic = isAuthentic \<rparr>])\<rparr>;
                     s = s\<lparr>events := events s @
                             [Verified (serialHashes ! i) (batchIds ! i) isAuthentic
                                msg_sender verifyTimestamp]\<rparr>
                 in batchVerify_loop (i + 1) serialHashes batchIds msg_sender
                      block_timestamp s results
      else Inr (s, results))"
  by pat_completeness auto
termination
  by (relation "measure (\<lambda>(i, serialHashes, batchIds, msg_sender, block_timestamp, s, results).
                  length serialHashes - i)") auto

definition batchVerify ::
  "contract \<Rightarrow> address \<Rightarrow> uint256 \<Rightarrow> bytes32 list \<Rightarrow> uint256 list \<Rightarrow> (bool list) result" where
  "batchVerify s msg_sender block_timestamp serialHashes batchIds =
     whenNotPaused s (\<lambda>s. nonReentrant s (\<lambda>s.
       if \<not> length serialHashes = length batchIds then
         Inl (Error ''ChainCheck: arrays length mismatch'')
       else
         batchVerify_loop 0 serialHashes batchIds msg_sender block_timestamp s
           (replicate (length serialHashes) False)))"

definition pause :: "contract \<Rightarrow> address \<Rightarrow> unit result" where
  "pause s msg_sender =
     onlyOwner s msg_sender (\<lambda>s. whenNotPaused s (\<lambda>s. nonReentrant s (\<lambda>s.
       Inr (s\<lparr>paused := True, events := events s @ [Paused True]\<rparr>, ()))))"

definition unpause :: "contract \<Rightarrow> address \<Rightarrow> unit result" where
  "unpause s msg_sender =
     onlyOwner s msg_sender (\<lambda>s. whenPaused s (\<lambda>s. nonReentrant s (\<lambda>s.
       Inr (s\<lparr>paused := False, events := events s @ [Paused False]\<rparr>, ()))))"

definition updateProductMetadata ::
  "contract \<Rightarrow> address \<Rightarrow> uint256 \<Rightarrow> string \<Rightarrow> string \<Rightarrow> string \<Rightarrow> unit result" where
  "updateProductMetadata s msg_sender \<equiv> \<lambda>batchId ipfsHash description imageUrl.
     onlyMaker s msg_sender (\<lambda>s. whenNotPaused s (\<lambda>s. nonReentrant s (\<lambda>s.
       if batchId = 0 then Inl InvalidBatchId
       else if \<not> exists (products s batchId) then Inl BatchNotFound
       else
         let s = (if length ipfsHash > 0 then
                    s\<lparr>products := (products s)(batchId :=
                        (products s batchId)\<lparr>ipfsHash := ipfsHash\<rparr>)\<rparr>
                  else s);
             s = (if length description > 0 then
                    s\<lparr>products := (products s)(batchId :=
                        (products s batchId)\<lparr>description := description\<rparr>)\<rparr>
                  else s);
             s = (if length imageUrl > 0 then
                    s\<lparr>products := (products s)(batchId :=
                        (products s batchId)\<lparr>imageUrl := imageUrl\<rparr>)\<rparr>
                  else s)
         in Inr (s, ()))))"

text \<open>The read-only queries the properties below speak of.\<close>

definition isSerialVerified :: "contract \<Rightarrow> bytes32 \<Rightarrow> bool" where
  "isSerialVerified s h = serialVerified s h"

definition getManufacturers :: "contract \<Rightarrow> address list" where
  "getManufacturers s = manufacturerList s"

definition getVerificationHistory :: "contract \<Rightarrow> bytes32 \<Rightarrow> VerificationRecord list" where
  "getVerificationHistory s h = verificationHistory s h"

section \<open>Specification of batch verification\<close>

text \<open>
  The specification of \<open>batchVerify\<close>, in the words of the design document. An
  entry is invalid when its batch id is zero, its batch is not registered, or the
  recorded batch of its fingerprint is not the claimed one. The entries are
  processed in order: an invalid entry yields \<open>False\<close> and leaves the storage as
  it is, every other entry is one call of \<open>verify\<close>, and the results are
  returned in the order of the entries.
\<close>

definition entry_invalid :: "contract \<Rightarrow> bytes32 \<Rightarrow> uint256 \<Rightarrow> bool" where
  "entry_invalid s f b \<longleftrightarrow> b = 0 \<or> \<not> exists (products s b) \<or> serialToBatch s f \<noteq> b"

fun batch_entries_spec ::
  "contract \<Rightarrow> address \<Rightarrow> uint256 \<Rightarrow> (bytes32 \<times> uint256) list \<Rightarrow> (bool list) result" where
  "batch_entries_spec s c t [] = Inr (s, [])"
| "batch_entries_spec s c t ((f, b) # es) =
     (if entry_invalid s f b then
        case batch_entries_spec s c t es of
          Inl e \<Rightarrow> Inl e
        | Inr (s', rs) \<Rightarrow> Inr (s', False # rs)
      else
        case verify s c t f b of
          Inl e \<Rightarrow> Inl e
        | Inr (s', r) \<Rightarrow>
            (case batch_entries_spec s' c t es of
               Inl e \<Rightarrow> Inl e
             | Inr (s'', rs) \<Rightarrow> Inr (s'', r # rs)))"

section \<open>Transactions and runs\<close>

text \<open>
  A transaction is a caller, a block timestamp and one call of a state-changing
  function of the contract. \<open>exec\<close> gives the storage after a transaction: the
  storage the call returns, or the old storage when the call reverts. \<open>run\<close>
  executes a list of transactions in order.
\<close>

datatype call =
    AuthorizeManufacturer address bool
  | RegisterProduct uint256 string string "bytes32 list" string string string
  | Verify bytes32 uint256
  | TransferOwnership address
  | BatchVerify "bytes32 list" "uint256 list"
  | Pause
  | Unpause
  | UpdateProductMetadata uint256 string string string

type_synonym transaction = "address \<times> uint256 \<times> call"

definition outcome :: "contract \<Rightarrow> 'a result \<Rightarrow> contract" where
  "outcome s r = (case r of Inl e \<Rightarrow> s | Inr (s', v) \<Rightarrow> s')"

fun exec :: "contract \<Rightarrow> transaction \<Rightarrow> contract" where
  "exec s (c, t, AuthorizeManufacturer maker authorized) =
     outcome s (authorizeManufacturer s c maker authorized)"
| "exec s (c, t, RegisterProduct b n br hs i d u) =
     outcome s (registerProduct s c t b n br hs i d u)"
| "exec s (c, t, Verify h b) = outcome s (verify s c t h b)"
| "exec s (c, t, TransferOwnership newOwner) = outcome s (transferOwnership s c newOwner)"
| "exec s (c, t, BatchVerify hs bs) = outcome s (batchVerify s c t hs bs)"
| "exec s (c, t, Pause) = outcome s (pause s c)"
| "exec s (c, t, Unpause) = outcome s (unpause s c)"
| "exec s (c, t, UpdateProductMetadata b i d u) =
     outcome s (updateProductMetadata s c b i d u)"

fun run :: "contract \<Rightarrow> transaction list \<Rightarrow> contract" where
  "run s [] = s"
| "run s (x # xs) = run (exec s x) xs"

text \<open>
  The number of results \<open>True\<close> that a transaction returns for the fingerprint
  \<open>f\<close>: the result of a \<open>verify\<close> of \<open>f\<close>, or the entries of a \<open>batchVerify\<close>
  whose fingerprint is \<open>f\<close>. \<open>authentic_total\<close> adds them up along a run.
\<close>

fun authentic_results :: "bytes32 \<Rightarrow> contract \<Rightarrow> transaction \<Rightarrow> nat" where
  "authentic_results f s (c, t, Verify h b) =
     (case verify s c t h b of
        Inl e \<Rightarrow> 0
      | Inr (s', r) \<Rightarrow> if h = f \<and> r then 1 else 0)"
| "authentic_results f s (c, t, BatchVerify hs bs) =
     (case batchVerify s c t hs bs of
        Inl e \<Rightarrow> 0
      | Inr (s', rs) \<Rightarrow> length (filter (\<lambda>(h, r). h = f \<and> r) (zip hs rs)))"
| "authentic_results f s (c, t, other) = 0"

fun authentic_total :: "bytes32 \<Rightarrow> contract \<Rightarrow> transaction list \<Rightarrow> nat" where
  "authentic_total f s [] = 0"
| "authentic_total f s (x # xs) = authentic_results f s x + authentic_total f (exec s x) xs"

text \<open>
  Whether a transaction is a successful \<open>registerProduct\<close> that supplies the
  fingerprint \<open>f\<close>, and whether some transaction of a run is.
\<close>

fun supplies :: "bytes32 \<Rightarrow> contract \<Rightarrow> transaction \<Rightarrow> bool" where
  "supplies f s (c, t, RegisterProduct b n br hs i d u) =
     (case registerProduct s c t b n br hs i d u of
        Inl e \<Rightarrow> False
      | Inr p \<Rightarrow> f \<in> set hs)"
| "supplies f s (c, t, other) = False"

fun ever_supplied :: "bytes32 \<Rightarrow> contract \<Rightarrow> transaction list \<Rightarrow> bool" where
  "ever_supplied f s [] = False"
| "ever_supplied f s (x # xs) = (supplies f s x \<or> ever_supplied f (exec s x) xs)"

text \<open>
  The invariant of a fingerprint that no registration has supplied, together with
  two facts about every storage between calls: the guard is open and batch 0
  does not exist.
\<close>

definition untouched :: "bytes32 \<Rightarrow> contract \<Rightarrow> bool" where
  "untouched f s \<longleftrightarrow>
     locked s = 0 \<and> \<not> exists (products s 0) \<and> serialToBatch s f = 0 \<and>
     \<not> serialVerified s f \<and> verificationHistory s f = []"

section \<open>Example storage\<close>

text \<open>
  The storage after the deployer, address 1, has registered batch 1, "Widget" of
  "Acme", with the serials 11 and 12 at time 100.
\<close>

definition widget_state :: contract where
  "widget_state =
     (constructor 1)\<lparr>
       products := (products (constructor 1))(1 :=
         \<lparr> name = ''Widget'', brand = ''Acme'', exists = True, registeredAt = 100,
           ipfsHash = [], description = [], imageUrl = [] \<rparr>),
       serialToBatch := ((serialToBatch (constructor 1))(11 := 1))(12 := 1),
       totalProducts := 1,
       events := events (constructor 1) @ [ProductRegistered 1 ''Widget'' ''Acme'' 2]\<rparr>"

text \<open>The storage after the deployer, address 1, has paused the fresh contract.\<close>

definition paused_state :: contract where
  "paused_state = (constructor 1)\<lparr>paused := True, events := events (constructor 1) @ [Paused True]\<rparr>"

text \<open>The storage after the deployer has given batch 1 a description.\<close>

definition described_state :: contract where
  "described_state =
     widget_state\<lparr>products := (products widget_state)(1 :=
       (products widget_state 1)\<lparr>description := ''A widget''\<rparr>)\<rparr>"

text \<open>The storage after the deployer, address 1, has transferred ownership to address 2.\<close>

definition transferred_state :: contract where
  "transferred_state =
     (constructor 1)\<lparr>owner := 2,
       authorizedMakers := ((authorizedMakers (constructor 1))(1 := False))(2 := True),
       events := events (constructor 1) @
         [ManufacturerAuthorized 1 False, ManufacturerAuthorized 2 True]\<rparr>"

text \<open>The storage after the deployer, address 1, has authorized address 2.\<close>

definition granted_state :: contract where
  "granted_state =
     (constructor 1)\<lparr>manufacturerList := [1, 2],
       authorizedMakers := (authorizedMakers (constructor 1))(2 := True),
       events := events (constructor 1) @ [ManufacturerAuthorized 2 True]\<rparr>"

text \<open>
  The storage after the deployer has then registered batch 2, "Gadget", with the
  serial 11 again, at time 150.
\<close>

definition regrouped_state :: contract where
  "regrouped_state =
     widget_state\<lparr>
       products := (products widget_state)(2 :=
         \<lparr> name = ''Gadget'', brand = ''Acme'', exists = True, registeredAt = 150,
           ipfsHash = [], description = [], imageUrl = [] \<rparr>),
       serialToBatch := (serialToBatch widget_state)(11 := 2),
       totalProducts := 2,
       events := events widget_state @ [ProductRegistered 2 ''Gadget'' ''Acme'' 1]\<rparr>"

text \<open>
  The scenario of the design document: the deployer registers batch 1 with the
  serials 11 and 12, address 2 verifies serial 11 twice, and address 3 verifies in
  one batch serial 11 again and serial 13 under the unregistered batch 99.
\<close>

definition widget_story :: "transaction list" where
  "widget_story =
     [(1, 100, RegisterProduct 1 ''Widget'' ''Acme'' [11, 12] [] [] []),
      (2, 200, Verify 11 1),
      (2, 201, Verify 11 1),
      (3, 202, BatchVerify [11, 13] [1, 99])]"

text \<open>The storage after the deployer has then paused the contract.\<close>

definition regrouped_paused_state :: contract where
  "regrouped_paused_state =
     regrouped_state\<lparr>paused := True, events := events regrouped_state @ [Paused True]\<rparr>"

text \<open>
  A run with calls between and after two registrations of serial 11: after batch 1
  is registered, address 2 verifies serial 12; the deployer registers batch 2 with
  serial 11.
\<close>

definition interleaved_mid :: contract where
  "interleaved_mid = run widget_state [(2, 120, Verify 12 1)]"

definition interleaved_second :: contract where
  "interleaved_second =
     exec interleaved_mid (1, 150, RegisterProduct 2 ''Gadget'' ''Acme'' [11] [] [] [])"

section \<open>Properties\<close>

subsection \<open>Unfolding the modifiers and the checked increment\<close>

declare remove_loop.simps [simp del] register_loop.simps [simp del]
  batchVerify_loop.simps [simp del]

lemmas modifier_defs = nonReentrant_def onlyOwner_def onlyMaker_def whenNotPaused_def whenPaused_def

lemma checked_inc_Inr: "unat x + 1 < 2 ^ 256 \<Longrightarrow> checked_inc x = Inr (x + 1)"
  by (simp add: checked_inc_def)

lemma unat_inc: "unat (x :: uint256) + 1 < 2 ^ 256 \<Longrightarrow> unat (x + 1) = unat x + 1"
  by (simp add: unat_word_ariths)

lemma widget_state_registered:
  "registerProduct (constructor 1) 1 100 1 ''Widget'' ''Acme'' [11, 12] [] [] [] =
     Inr (widget_state, ())"
  by (simp add: registerProduct_def modifier_defs constructor_def checked_inc_def widget_state_def
      register_loop.simps)

subsection \<open>Single verification\<close>

lemma verify_success:
  assumes "verify s c t f b = Inr (s', r)"
  shows "\<not> paused s \<and> locked s \<noteq> 1 \<and> b \<noteq> 0 \<and> exists (products s b) \<and>
     serialToBatch s f = b \<and> r = (\<not> serialVerified s f) \<and>
     (\<not> serialVerified s f \<longrightarrow>
        unat (totalVerifications s) + 1 < 2 ^ 256 \<and>
        unat (batchVerificationCount s b) + 1 < 2 ^ 256) \<and>
     s' = s\<lparr>locked := 0,
            serialVerified := (serialVerified s)(f := True),
            totalVerifications :=
              (if serialVerified s f then totalVerifications s else totalVerifications s + 1),
            batchVerificationCount :=
              (if serialVerified s f then batchVerificationCount s
               else (batchVerificationCount s)(b := batchVerificationCount s b + 1)),
            verificationHistory := (verificationHistory s)(f := verificationHistory s f @
              [\<lparr> serialHash = f, batchId = b, verifier = c, timestamp = t,
                 isAuthentic = \<not> serialVerified s f \<rparr>]),
            events := events s @ [Verified f b (\<not> serialVerified s f) c t]\<rparr>"
  using assms
  by (auto simp add: verify_def modifier_defs Let_def checked_inc_def fun_upd_idem
      split: if_splits)

lemma verify_overflow:
  assumes "\<not> paused s" "locked s = 0" "b \<noteq> 0" "exists (products s b)" "serialToBatch s f = b"
  shows "verify s c t f b = Inl e \<longleftrightarrow>
     e = Panic \<and> \<not> serialVerified s f \<and>
     \<not> (unat (totalVerifications s) + 1 < 2 ^ 256 \<and>
        unat (batchVerificationCount s b) + 1 < 2 ^ 256)"
  using assms
  by (auto simp add: verify_def modifier_defs Let_def checked_inc_def split: if_splits)

lemma verify_authentic:
  assumes "\<not> paused s" "locked s = 0" "b \<noteq> 0" "exists (products s b)" "serialToBatch s f = b"
    "\<not> serialVerified s f" "unat (totalVerifications s) + 1 < 2 ^ 256"
    "unat (batchVerificationCount s b) + 1 < 2 ^ 256"
  shows "verify s c t f b = Inr (s\<lparr>serialVerified := (serialVerified s)(f := True),
      totalVerifications := totalVerifications s + 1,
      batchVerificationCount := (batchVerificationCount s)(b := batchVerificationCount s b + 1),
      verificationHistory := (verificationHistory s)(f := verificationHistory s f @
         [\<lparr> serialHash = f, batchId = b, verifier = c, timestamp = t, isAuthentic = True \<rparr>]),
      events := events s @ [Verified f b True c t]\<rparr>, True)"
  using assms by (simp add: verify_def modifier_defs checked_inc_Inr)

lemma verify_repeat:
  assumes "\<not> paused s" "locked s = 0" "b \<noteq> 0" "exists (products s b)" "serialToBatch s f = b"
    "serialVerified s f"
  shows "verify s c t f b = Inr (s\<lparr>
      verificationHistory := (verificationHistory s)(f := verificationHistory s f @
         [\<lparr> serialHash = f, batchId = b, verifier = c, timestamp = t, isAuthentic = False \<rparr>]),
      events := events s @ [Verified f b False c t]\<rparr>, False)"
  using assms by (simp add: verify_def modifier_defs)

text \<open>
  Claim C2. Take a call \<open>verify f b\<close> on a running, idle contract, with \<open>b\<close>
  nonzero and registered and \<open>f\<close> recorded under \<open>b\<close>. Whenever it returns, the
  boolean is the negation of the verified status \<open>f\<close> had before the call, and
  \<open>f\<close> is verified afterwards. When the boolean is true, \<open>totalVerifications\<close>
  and the count of batch \<open>b\<close> have grown by exactly one and no other count has
  changed; when it is false no counter has changed. In both cases exactly one
  record with the fingerprint, the batch, the caller, the timestamp and the outcome
  is appended to the history of \<open>f\<close>, no other history changes, and one
  \<open>Verified\<close> event is emitted. The call does return, unless \<open>f\<close> is unverified
  and one of the two counters it would increment is at its maximum: only then the
  checked increment reverts with \<open>Panic\<close>.
\<close>

theorem verify_result:
  assumes running: "\<not> paused s" and idle: "locked s = 0"
    and nonzero: "b \<noteq> 0" and registered: "exists (products s b)"
    and member: "serialToBatch s f = b"
  shows "(\<forall>s' r. verify s c t f b = Inr (s', r) \<longrightarrow>
            r = (\<not> serialVerified s f) \<and>
            serialVerified s' = (serialVerified s)(f := True) \<and>
            (r \<longrightarrow>
               unat (totalVerifications s') = unat (totalVerifications s) + 1 \<and>
               unat (batchVerificationCount s' b) = unat (batchVerificationCount s b) + 1 \<and>
               (\<forall>b'. b' \<noteq> b \<longrightarrow>
                  batchVerificationCount s' b' = batchVerificationCount s b')) \<and>
            (\<not> r \<longrightarrow>
               totalVerifications s' = totalVerifications s \<and>
               batchVerificationCount s' = batchVerificationCount s) \<and>
            totalProducts s' = totalProducts s \<and>
            verificationHistory s' f = verificationHistory s f @
              [\<lparr> serialHash = f, batchId = b, verifier = c, timestamp = t,
                 isAuthentic = r \<rparr>] \<and>
            (\<forall>f'. f' \<noteq> f \<longrightarrow> verificationHistory s' f' = verificationHistory s f') \<and>
            events s' = events s @ [Verified f b r c t]) \<and>
         ((\<exists>s'. verify s c t f b = Inr (s', \<not> serialVerified s f)) \<or>
          verify s c t f b = Inl Panic) \<and>
         (verify s c t f b = Inl Panic \<longleftrightarrow>
            \<not> serialVerified s f \<and>
            \<not> (unat (totalVerifications s) + 1 < 2 ^ 256 \<and>
               unat (batchVerificationCount s b) + 1 < 2 ^ 256))"
proof -
  have returned: "\<forall>s' r. verify s c t f b = Inr (s', r) \<longrightarrow>
            r = (\<not> serialVerified s f) \<and>
            serialVerified s' = (serialVerified s)(f := True) \<and>
            (r \<longrightarrow>
               unat (totalVerifications s') = unat (totalVerifications s) + 1 \<and>
               unat (batchVerificationCount s' b) = unat (batchVerificationCount s b) + 1 \<and>
               (\<forall>b'. b' \<noteq> b \<longrightarrow>
                  batchVerificationCount s' b' = batchVerificationCount s b')) \<and>
            (\<not> r \<longrightarrow>
               totalVerifications s' = totalVerifications s \<and>
               batchVerificationCount s' = batchVerificationCount s) \<and>
            totalProducts s' = totalProducts s \<and>
            verificationHistory s' f = verificationHistory s f @
              [\<lparr> serialHash = f, batchId = b, verifier = c, timestamp = t,
                 isAuthentic = r \<rparr>] \<and>
            (\<forall>f'. f' \<noteq> f \<longrightarrow> verificationHistory s' f' = verificationHistory s f') \<and>
            events s' = events s @ [Verified f b r c t]"
  proof (intro allI impI)
    fix s' r
    assume ok: "verify s c t f b = Inr (s', r)"
    from verify_success [OF ok] idle show
      "r = (\<not> serialVerified s f) \<and>
       serialVerified s' = (serialVerified s)(f := True) \<and>
       (r \<longrightarrow>
          unat (totalVerifications s') = unat (totalVerifications s) + 1 \<and>
          unat (batchVerificationCount s' b) = unat (batchVerificationCount s b) + 1 \<and>
          (\<forall>b'. b' \<noteq> b \<longrightarrow>
             batchVerificationCount s' b' = batchVerificationCount s b')) \<and>
       (\<not> r \<longrightarrow>
          totalVerifications s' = totalVerifications s \<and>
          batchVerificationCount s' = batchVerificationCount s) \<and>
       totalProducts s' = totalProducts s \<and>
       verificationHistory s' f = verificationHistory s f @
         [\<lparr> serialHash = f, batchId = b, verifier = c, timestamp = t,
            isAuthentic = r \<rparr>] \<and>
       (\<forall>f'. f' \<noteq> f \<longrightarrow> verificationHistory s' f' = verificationHistory s f') \<and>
       events s' = events s @ [Verified f b r c t]"
      by (simp add: unat_inc)
  qed
  have panic: "verify s c t f b = Inl Panic \<longleftrightarrow>
            \<not> serialVerified s f \<and>
            \<not> (unat (totalVerifications s) + 1 < 2 ^ 256 \<and>
               unat (batchVerificationCount s b) + 1 < 2 ^ 256)"
    using verify_overflow [OF running idle nonzero registered member, of c t Panic] by simp
  have outcome: "(\<exists>s'. verify s c t f b = Inr (s', \<not> serialVerified s f)) \<or>
          verify s c t f b = Inl Panic"
  proof (cases "verify s c t f b")
    case (Inl e)
    with verify_overflow [OF running idle nonzero registered member, of c t e]
    show ?thesis by simp
  next
    case (Inr p)
    obtain s' r where p: "p = (s', r)" by (cases p)
    from verify_success [OF Inr [unfolded p]] Inr p show ?thesis by simp
  qed
  from returned outcome panic show ?thesis by (intro conjI)
qed

theorem verify_result_witness:
  "\<not> paused widget_state \<and> locked widget_state = 0 \<and> (1 :: uint256) \<noteq> 0 \<and>
   exists (products widget_state 1) \<and> serialToBatch widget_state 11 = 1 \<and>
   \<not> serialVerified widget_state 11 \<and>
   (\<exists>s'. verify widget_state 2 200 11 1 = Inr (s', True) \<and>
      serialVerified s' 11 \<and> unat (totalVerifications s') = 1 \<and>
      unat (batchVerificationCount s' 1) = 1 \<and>
      verificationHistory s' 11 =
        [\<lparr> serialHash = 11, batchId = 1, verifier = 2, timestamp = 200, isAuthentic = True \<rparr>])"
proof -
  have h: "\<not> paused widget_state" "locked widget_state = 0" "(1 :: uint256) \<noteq> 0"
    "exists (products widget_state 1)" "serialToBatch widget_state 11 = 1"
    and nv: "\<not> serialVerified widget_state 11"
    and tv: "totalVerifications widget_state = 0"
    and bc: "batchVerificationCount widget_state 1 = 0"
    and hist: "verificationHistory widget_state 11 = []"
    by (simp_all add: widget_state_def constructor_def)
  note t = verify_result [OF h, of 2 200]
  from t tv bc have "verify widget_state 2 200 11 1 \<noteq> Inl Panic"
    by simp
  with t nv obtain s' where r: "verify widget_state 2 200 11 1 = Inr (s', True)"
    by auto
  from t r have "serialVerified s' = (serialVerified widget_state)(11 := True)"
    and "unat (totalVerifications s') = unat (totalVerifications widget_state) + 1"
    and "unat (batchVerificationCount s' 1) = unat (batchVerificationCount widget_state 1) + 1"
    and "verificationHistory s' 11 = verificationHistory widget_state 11 @
           [\<lparr> serialHash = 11, batchId = 1, verifier = 2, timestamp = 200,
              isAuthentic = True \<rparr>]"
    by blast+
  with r tv bc hist nv h show ?thesis by simp
qed

subsection \<open>Metadata update\<close>

lemma updateProductMetadata_success:
  assumes "updateProductMetadata s c b i d u = Inr (s', r)"
  shows "authorizedMakers s c \<and> \<not> paused s \<and> locked s \<noteq> 1 \<and> b \<noteq> 0 \<and> exists (products s b) \<and>
     s' = s\<lparr>locked := 0, products := (products s)(b := (products s b)\<lparr>
             ipfsHash := (if i = [] then ipfsHash (products s b) else i),
             description := (if d = [] then description (products s b) else d),
             imageUrl := (if u = [] then imageUrl (products s b) else u)\<rparr>)\<rparr>"
  using assms
  by (auto simp add: updateProductMetadata_def modifier_defs Let_def split: if_splits)

text \<open>
  Claim C8. Every successful \<open>updateProductMetadata\<close> is on a registered nonzero
  batch. Each of the three metadata fields of that batch takes the supplied value
  when that value is not empty and keeps its old value when it is empty, so a
  field that was not empty is not empty afterwards; the
  name, the brand, the existence flag and the registration time of the batch are
  unchanged, every other batch is unchanged, and so is the rest of the storage.
\<close>

theorem updateProductMetadata_frame:
  assumes "updateProductMetadata s c b i d u = Inr (s', r)"
  shows "b \<noteq> 0 \<and> exists (products s b) \<and>
     ipfsHash (products s' b) = (if i = [] then ipfsHash (products s b) else i) \<and>
     description (products s' b) = (if d = [] then description (products s b) else d) \<and>
     imageUrl (products s' b) = (if u = [] then imageUrl (products s b) else u) \<and>
     name (products s' b) = name (products s b) \<and>
     brand (products s' b) = brand (products s b) \<and>
     exists (products s' b) = exists (products s b) \<and>
     registeredAt (products s' b) = registeredAt (products s b) \<and>
     (ipfsHash (products s b) \<noteq> [] \<longrightarrow> ipfsHash (products s' b) \<noteq> []) \<and>
     (description (products s b) \<noteq> [] \<longrightarrow> description (products s' b) \<noteq> []) \<and>
     (imageUrl (products s b) \<noteq> [] \<longrightarrow> imageUrl (products s' b) \<noteq> []) \<and>
     (\<forall>b'. b' \<noteq> b \<longrightarrow> products s' b' = products s b') \<and>
     s' = s\<lparr>locked := 0, products := products s'\<rparr>"
  using updateProductMetadata_success [OF assms] by simp

theorem updateProductMetadata_frame_witness:
  "updateProductMetadata widget_state 1 1 [] ''A widget'' [] = Inr (described_state, ()) \<and>
   ipfsHash (products described_state 1) = [] \<and>
   description (products described_state 1) = ''A widget'' \<and>
   name (products described_state 1) = ''Widget'' \<and>
   exists (products described_state 1)"
proof -
  have run: "updateProductMetadata widget_state 1 1 [] ''A widget'' [] = Inr (described_state, ())"
    by (simp add: updateProductMetadata_def modifier_defs widget_state_def constructor_def
        described_state_def)
  have pre: "ipfsHash (products widget_state 1) = []" "name (products widget_state 1) = ''Widget''"
    "exists (products widget_state 1)"
    by (simp_all add: widget_state_def)
  from updateProductMetadata_frame [OF run] pre run show ?thesis by simp
qed

subsection \<open>The pause gate\<close>

lemma paused_state_reached: "pause (constructor 1) 1 = Inr (paused_state, ())"
  by (simp add: pause_def modifier_defs constructor_def paused_state_def)

lemma paused_blocks:
  assumes "paused s"
  shows "registerProduct s c t b n br hs i d u =
           Inl (if authorizedMakers s c then ContractPaused else NotAuthorized)"
    and "updateProductMetadata s c b i d u =
           Inl (if authorizedMakers s c then ContractPaused else NotAuthorized)"
    and "verify s c t f b = Inl ContractPaused"
    and "batchVerify s c t fs bs = Inl ContractPaused"
    and "pause s c = Inl (if c = owner s then ContractPaused else NotOwner)"
  using assms
  by (simp_all add: registerProduct_def updateProductMetadata_def verify_def batchVerify_def
      pause_def modifier_defs)

lemma unpause_paused:
  assumes "paused s" "locked s = 0"
  shows "unpause s c =
           (if c = owner s then Inr (s\<lparr>paused := False, events := events s @ [Paused False]\<rparr>, ())
            else Inl NotOwner)"
  using assms by (simp add: unpause_def modifier_defs)

lemma running_pause:
  assumes "\<not> paused s"
  shows "unpause s c = Inl (if c = owner s then ContractNotPaused else NotOwner)"
    and "locked s = 0 \<Longrightarrow> pause s c =
           (if c = owner s then Inr (s\<lparr>paused := True, events := events s @ [Paused True]\<rparr>, ())
            else Inl NotOwner)"
  using assms by (simp_all add: unpause_def pause_def modifier_defs)

text \<open>
  Claim C7, as amended. While the pause flag is set, \<open>verify\<close> and
  \<open>batchVerify\<close> revert with \<open>ContractPaused\<close>; \<open>registerProduct\<close> and
  \<open>updateProductMetadata\<close> revert with \<open>NotAuthorized\<close> for a caller that is not
  authorized and with \<open>ContractPaused\<close> for an authorized one. A reverted call
  changes no storage. \<open>pause\<close> and \<open>unpause\<close> revert with \<open>NotOwner\<close> for any
  caller but the owner. Called by the owner, \<open>pause\<close> reverts with
  \<open>ContractPaused\<close> when the flag is already set and \<open>unpause\<close> reverts with
  \<open>ContractNotPaused\<close> when it is clear; otherwise each flips the flag and emits
  a \<open>Paused\<close> event with the new value.
\<close>

theorem pause_gate:
  "(paused s \<longrightarrow>
      registerProduct s c t b n br hs i d u =
        Inl (if authorizedMakers s c then ContractPaused else NotAuthorized) \<and>
      updateProductMetadata s c b i d u =
        Inl (if authorizedMakers s c then ContractPaused else NotAuthorized) \<and>
      verify s c t f b = Inl ContractPaused \<and>
      batchVerify s c t fs bs = Inl ContractPaused \<and>
      pause s c = Inl (if c = owner s then ContractPaused else NotOwner) \<and>
      (locked s = 0 \<longrightarrow>
         unpause s c =
           (if c = owner s
            then Inr (s\<lparr>paused := False, events := events s @ [Paused False]\<rparr>, ())
            else Inl NotOwner))) \<and>
   (\<not> paused s \<longrightarrow>
      unpause s c = Inl (if c = owner s then ContractNotPaused else NotOwner) \<and>
      (locked s = 0 \<longrightarrow>
         pause s c =
           (if c = owner s
            then Inr (s\<lparr>paused := True, events := events s @ [Paused True]\<rparr>, ())
            else Inl NotOwner)))"
  by (simp add: paused_blocks unpause_paused running_pause)

theorem pause_gate_witness:
  "paused paused_state \<and> locked paused_state = 0 \<and> owner paused_state = 1 \<and>
   authorizedMakers paused_state 1 \<and>
   registerProduct paused_state 1 100 1 ''Widget'' ''Acme'' [11, 12] [] [] [] = Inl ContractPaused \<and>
   updateProductMetadata paused_state 1 1 [] ''A widget'' [] = Inl ContractPaused \<and>
   verify paused_state 2 200 11 1 = Inl ContractPaused \<and>
   batchVerify paused_state 2 200 [11] [1] = Inl ContractPaused \<and>
   pause paused_state 1 = Inl ContractPaused \<and>
   unpause paused_state 1 =
     Inr (paused_state\<lparr>paused := False, events := events paused_state @ [Paused False]\<rparr>, ()) \<and>
   \<not> paused (constructor 1) \<and> locked (constructor 1) = 0 \<and> owner (constructor 1) = 1 \<and>
   unpause (constructor 1) 1 = Inl ContractNotPaused \<and>
   pause (constructor 1) 1 =
     Inr ((constructor 1)\<lparr>paused := True, events := events (constructor 1) @ [Paused True]\<rparr>, ())"
proof -
  have p: "paused paused_state" "locked paused_state = 0" "owner paused_state = 1"
    "authorizedMakers paused_state 1"
    by (simp_all add: paused_state_def constructor_def)
  have q: "\<not> paused (constructor 1)" "locked (constructor 1) = 0" "owner (constructor 1) = 1"
    by (simp_all add: constructor_def)
  show ?thesis
    using p q
      pause_gate [of paused_state 1 100 1 "''Widget''" "''Acme''" "[11, 12]" "[]" "[]" "[]" 11 "[11]" "[1]"]
      pause_gate [of paused_state 1 100 1 "''Widget''" "''Acme''" "[11, 12]" "[]" "''A widget''" "[]" 11 "[11]" "[1]"]
      pause_gate [of paused_state 2 200 1 "''Widget''" "''Acme''" "[11, 12]" "[]" "[]" "[]" 11 "[11]" "[1]"]
      pause_gate [of "constructor 1" 1]
    by simp
qed

text \<open>
  Claim C7 as stated fails on the paused contract: \<open>pause\<close> by the owner reverts
  with \<open>ContractPaused\<close>, not with \<open>ContractNotPaused\<close>, and
  \<open>registerProduct\<close> and \<open>updateProductMetadata\<close> by an address that is not
  authorized revert with \<open>NotAuthorized\<close>, not with \<open>ContractPaused\<close>.
\<close>

theorem pause_gate_counterexample:
  "paused paused_state \<and> owner paused_state = 1 \<and>
   pause paused_state 1 = Inl ContractPaused \<and>
   pause paused_state 1 \<noteq> Inl ContractNotPaused \<and>
   \<not> authorizedMakers paused_state 2 \<and>
   registerProduct paused_state 2 100 1 ''Widget'' ''Acme'' [11, 12] [] [] [] = Inl NotAuthorized \<and>
   registerProduct paused_state 2 100 1 ''Widget'' ''Acme'' [11, 12] [] [] [] \<noteq> Inl ContractPaused \<and>
   updateProductMetadata paused_state 2 1 [] ''A widget'' [] = Inl NotAuthorized"
  by (simp add: pause_def registerProduct_def updateProductMetadata_def modifier_defs
      paused_state_def constructor_def)

subsection \<open>Ownership transfer\<close>

lemma transferOwnership_success:
  assumes "c = owner s" "locked s = 0" "newOwner \<noteq> 0" "newOwner \<noteq> owner s"
  shows "transferOwnership s c newOwner =
     Inr (s\<lparr>owner := newOwner,
            authorizedMakers := ((authorizedMakers s)(owner s := False))(newOwner := True),
            events := events s @
              [ManufacturerAuthorized (owner s) False, ManufacturerAuthorized newOwner True]\<rparr>, ())"
  using assms by (simp add: transferOwnership_def modifier_defs Let_def)

lemma transferOwnership_keeps_list:
  assumes "transferOwnership s c newOwner = Inr (s', r)"
  shows "manufacturerList s' = manufacturerList s"
  using assms
  by (auto simp add: transferOwnership_def modifier_defs Let_def split: if_splits)

text \<open>
  Claim C5 says that after a transfer the old owner is no longer enumerated and the
  new owner is. On the fresh contract deployed by address 1, the transfer to
  address 2 sets the owner and both authorization flags, but \<open>getManufacturers\<close>
  still returns the old owner alone: \<open>transferOwnership\<close> never writes
  \<open>manufacturerList\<close>.
\<close>

theorem transferOwnership_list_stale:
  "transferOwnership (constructor 1) 1 2 = Inr (transferred_state, ()) \<and>
   owner transferred_state = 2 \<and>
   \<not> authorizedMakers transferred_state 1 \<and>
   authorizedMakers transferred_state 2 \<and>
   getManufacturers transferred_state = [1] \<and>
   1 \<in> set (getManufacturers transferred_state) \<and>
   2 \<notin> set (getManufacturers transferred_state)"
  by (simp add: transferOwnership_def modifier_defs constructor_def transferred_state_def
      getManufacturers_def Let_def)

subsection \<open>Granting and revoking\<close>

lemma swap_pop_mset:
  assumes "i < length xs"
  shows "mset (butlast (xs[i := xs ! (length xs - 1)])) = mset xs - {#xs ! i#}"
proof (cases xs rule: rev_cases)
  case Nil
  with assms show ?thesis by simp
next
  case (snoc ys l)
  show ?thesis
  proof (cases "i = length ys")
    case True
    with snoc show ?thesis by simp
  next
    case False
    with assms snoc have lt: "i < length ys" by simp
    then have "ys ! i \<in># mset ys" by simp
    with lt snoc show ?thesis
      by (simp add: list_update_append nth_append mset_update)
  qed
qed

lemma remove_loop_mset:
  "mset (remove_loop i xs a) = (if a \<in> set (drop i xs) then mset xs - {#a#} else mset xs)"
proof (induction i xs a rule: remove_loop.induct)
  case (1 i list maker)
  show ?case
  proof (cases "i < length list")
    case False
    then show ?thesis by (simp add: remove_loop.simps)
  next
    case True
    then have d: "drop i list = list ! i # drop (Suc i) list"
      by (simp add: Cons_nth_drop_Suc)
    show ?thesis
    proof (cases "list ! i = maker")
      case True
      with \<open>i < length list\<close> d swap_pop_mset [of i list] show ?thesis
        by (simp add: remove_loop.simps [of i])
    next
      case False
      with \<open>i < length list\<close> d "1.IH" show ?thesis
        by (auto simp add: remove_loop.simps [of i])
    qed
  qed
qed

lemma remove_loop_count:
  "count_list (remove_loop 0 xs a) b =
     (if b = a then count_list xs a - 1 else count_list xs b)"
proof -
  have "count (mset (remove_loop 0 xs a)) b =
          (if b = a then count (mset xs) a - 1 else count (mset xs) b)"
    by (auto simp add: remove_loop_mset count_mset count_list_0_iff)
  then show ?thesis by (simp add: count_mset)
qed

lemma revoke_authorized:
  assumes "c = owner s" "locked s = 0" "a \<noteq> 0" "authorizedMakers s a"
  shows "authorizeManufacturer s c a False =
     Inr (s\<lparr>authorizedMakers := (authorizedMakers s)(a := False),
            manufacturerList := remove_loop 0 (manufacturerList s) a,
            events := events s @ [ManufacturerAuthorized a False]\<rparr>, ())"
  using assms by (simp add: authorizeManufacturer_def modifier_defs Let_def)

lemma grant_unauthorized:
  assumes "c = owner s" "locked s = 0" "a \<noteq> 0" "\<not> authorizedMakers s a"
  shows "authorizeManufacturer s c a True =
     Inr (s\<lparr>authorizedMakers := (authorizedMakers s)(a := True),
            manufacturerList := manufacturerList s @ [a],
            events := events s @ [ManufacturerAuthorized a True]\<rparr>, ())"
  using assms by (simp add: authorizeManufacturer_def modifier_defs Let_def)

lemma grant_authorized:
  assumes "c = owner s" "locked s = 0" "a \<noteq> 0" "authorizedMakers s a"
  shows "authorizeManufacturer s c a True =
     Inr (s\<lparr>events := events s @ [ManufacturerAuthorized a True]\<rparr>, ())"
proof -
  have "(authorizedMakers s)(a := True) = authorizedMakers s"
    using assms(4) by (simp add: fun_upd_idem)
  with assms show ?thesis
    by (simp add: authorizeManufacturer_def modifier_defs Let_def)
qed

text \<open>
  Claim C9. Let the owner call on an idle contract, for a nonzero address \<open>a\<close>
  that is authorized and occurs exactly once in the list of manufacturers.
  Revoking \<open>a\<close> and granting it again both succeed; in between \<open>a\<close> is neither
  authorized nor listed, and afterwards \<open>a\<close> is authorized and occurs exactly once
  in the list, which holds the same addresses as before. Granting \<open>a\<close> while it is
  already authorized succeeds, changes nothing but the log, and emits
  \<open>ManufacturerAuthorized a True\<close>.
\<close>

theorem authorize_round_trip:
  assumes own: "c = owner s" and idle: "locked s = 0" and nz: "a \<noteq> 0"
    and auth: "authorizedMakers s a"
    and once: "count_list (manufacturerList s) a = 1"
  shows "(\<exists>s1 s2.
           authorizeManufacturer s c a False = Inr (s1, ()) \<and>
           \<not> authorizedMakers s1 a \<and> a \<notin> set (getManufacturers s1) \<and>
           authorizeManufacturer s1 c a True = Inr (s2, ()) \<and>
           authorizedMakers s2 a \<and>
           count_list (getManufacturers s2) a = 1 \<and>
           mset (getManufacturers s2) = mset (getManufacturers s) \<and>
           authorizedMakers s2 = authorizedMakers s) \<and>
         authorizeManufacturer s c a True =
           Inr (s\<lparr>events := events s @ [ManufacturerAuthorized a True]\<rparr>, ())"
proof -
  let ?s1 = "s\<lparr>authorizedMakers := (authorizedMakers s)(a := False),
               manufacturerList := remove_loop 0 (manufacturerList s) a,
               events := events s @ [ManufacturerAuthorized a False]\<rparr>"
  let ?s2 = "?s1\<lparr>authorizedMakers := (authorizedMakers ?s1)(a := True),
               manufacturerList := manufacturerList ?s1 @ [a],
               events := events ?s1 @ [ManufacturerAuthorized a True]\<rparr>"
  have step1: "authorizeManufacturer s c a False = Inr (?s1, ())"
    by (rule revoke_authorized [OF own idle nz auth])
  have step2: "authorizeManufacturer ?s1 c a True = Inr (?s2, ())"
    by (rule grant_unauthorized) (simp_all add: own idle nz)
  have gone: "count_list (manufacturerList ?s1) a = 0"
    using once by (simp add: remove_loop_count)
  then have notin: "a \<notin> set (getManufacturers ?s1)"
    by (simp add: getManufacturers_def count_list_0_iff)
  have again: "count_list (getManufacturers ?s2) a = 1"
    using gone by (simp add: getManufacturers_def)
  have mem: "a \<in> set (manufacturerList s)"
    using once count_list_0_iff [of "manufacturerList s" a] by auto
  have same: "mset (getManufacturers ?s2) = mset (getManufacturers s)"
    using mem by (simp add: getManufacturers_def remove_loop_mset)
  have flags: "authorizedMakers ?s2 = authorizedMakers s"
    using auth by (auto simp add: fun_eq_iff)
  have body:
    "authorizeManufacturer s c a False = Inr (?s1, ()) \<and>
     \<not> authorizedMakers ?s1 a \<and> a \<notin> set (getManufacturers ?s1) \<and>
     authorizeManufacturer ?s1 c a True = Inr (?s2, ()) \<and>
     authorizedMakers ?s2 a \<and>
     count_list (getManufacturers ?s2) a = 1 \<and>
     mset (getManufacturers ?s2) = mset (getManufacturers s) \<and>
     authorizedMakers ?s2 = authorizedMakers s"
    using step1 step2 notin again same flags auth by simp
  have trip: "\<exists>s1 s2.
           authorizeManufacturer s c a False = Inr (s1, ()) \<and>
           \<not> authorizedMakers s1 a \<and> a \<notin> set (getManufacturers s1) \<and>
           authorizeManufacturer s1 c a True = Inr (s2, ()) \<and>
           authorizedMakers s2 a \<and>
           count_list (getManufacturers s2) a = 1 \<and>
           mset (getManufacturers s2) = mset (getManufacturers s) \<and>
           authorizedMakers s2 = authorizedMakers s"
    by (rule exI [of _ ?s1], rule exI [of _ ?s2]) (rule body)
  have noop: "authorizeManufacturer s c a True =
           Inr (s\<lparr>events := events s @ [ManufacturerAuthorized a True]\<rparr>, ())"
    by (rule grant_authorized [OF own idle nz auth])
  from trip noop show ?thesis by (rule conjI)
qed

lemma granted_state_reached:
  "authorizeManufacturer (constructor 1) 1 2 True = Inr (granted_state, ())"
  by (simp add: authorizeManufacturer_def modifier_defs constructor_def granted_state_def Let_def)

theorem authorize_round_trip_witness:
  "(1 :: address) = owner granted_state \<and> locked granted_state = 0 \<and> (2 :: address) \<noteq> 0 \<and>
   authorizedMakers granted_state 2 \<and> count_list (manufacturerList granted_state) 2 = 1 \<and>
   (\<exists>s1 s2.
      authorizeManufacturer granted_state 1 2 False = Inr (s1, ()) \<and>
      \<not> authorizedMakers s1 2 \<and> 2 \<notin> set (getManufacturers s1) \<and>
      authorizeManufacturer s1 1 2 True = Inr (s2, ()) \<and>
      authorizedMakers s2 2 \<and> count_list (getManufacturers s2) 2 = 1) \<and>
   authorizeManufacturer granted_state 1 2 True =
     Inr (granted_state\<lparr>events := events granted_state @ [ManufacturerAuthorized 2 True]\<rparr>, ())"
proof -
  have h: "(1 :: address) = owner granted_state" "locked granted_state = 0" "(2 :: address) \<noteq> 0"
    "authorizedMakers granted_state 2" "count_list (manufacturerList granted_state) 2 = 1"
    by (simp_all add: granted_state_def constructor_def)
  from authorize_round_trip [OF h] h show ?thesis by blast
qed

subsection \<open>Registration\<close>

lemma register_loop_closed:
  "register_loop i hs b m = (\<lambda>h. if h \<in> set (drop i hs) then b else m h)"
proof (induction i hs b m rule: register_loop.induct)
  case (1 i serialHashes b m)
  show ?case
  proof (cases "i < length serialHashes")
    case False
    then show ?thesis by (simp add: register_loop.simps)
  next
    case True
    then have d: "drop i serialHashes = serialHashes ! i # drop (Suc i) serialHashes"
      by (simp add: Cons_nth_drop_Suc)
    from True have "register_loop i serialHashes b m =
        register_loop (i + 1) serialHashes b (m(serialHashes ! i := b))"
      by (subst register_loop.simps) simp
    also from True have "\<dots> = (\<lambda>h. if h \<in> set (drop (i + 1) serialHashes) then b
        else (m(serialHashes ! i := b)) h)"
      by (rule "1.IH")
    also have "\<dots> = (\<lambda>h. if h \<in> set (drop i serialHashes) then b else m h)"
      by (subst d) (auto simp add: fun_eq_iff)
    finally show ?thesis .
  qed
qed

lemma registerProduct_cases:
  assumes "authorizedMakers s c" "\<not> paused s" "locked s = 0"
  shows "registerProduct s c t b n br hs i d u =
    (if b = 0 then Inl InvalidBatchId
     else if n = [] then Inl EmptyName
     else if br = [] then Inl EmptyBrand
     else if hs = [] then Inl NoSerials
     else if exists (products s b) then Inl BatchExists
     else if \<not> unat (totalProducts s) + 1 < 2 ^ 256 then Inl Panic
     else Inr (s\<lparr>products := (products s)(b :=
                   \<lparr> name = n, brand = br, exists = True, registeredAt = t,
                     ipfsHash = i, description = d, imageUrl = u \<rparr>),
                 serialToBatch := (\<lambda>h. if h \<in> set hs then b else serialToBatch s h),
                 totalProducts := totalProducts s + 1,
                 events := events s @ [ProductRegistered b n br (of_nat (length hs))]\<rparr>, ()))"
  using assms
  by (simp add: registerProduct_def modifier_defs Let_def checked_inc_def register_loop_closed
      cong: if_cong)

lemma registerProduct_success:
  assumes "registerProduct s c t b n br hs i d u = Inr (s', r)"
  shows "authorizedMakers s c \<and> \<not> paused s \<and> locked s \<noteq> 1 \<and>
     b \<noteq> 0 \<and> n \<noteq> [] \<and> br \<noteq> [] \<and> hs \<noteq> [] \<and> \<not> exists (products s b) \<and>
     unat (totalProducts s) + 1 < 2 ^ 256 \<and>
     s' = s\<lparr>locked := 0,
            products := (products s)(b :=
                   \<lparr> name = n, brand = br, exists = True, registeredAt = t,
                     ipfsHash = i, description = d, imageUrl = u \<rparr>),
            serialToBatch := (\<lambda>h. if h \<in> set hs then b else serialToBatch s h),
            totalProducts := totalProducts s + 1,
            events := events s @ [ProductRegistered b n br (of_nat (length hs))]\<rparr>"
  using assms
  by (auto simp add: registerProduct_def modifier_defs Let_def checked_inc_def register_loop_closed
      split: if_splits cong: if_cong)

lemma registerProduct_exists_fails:
  assumes "exists (products s b)"
  shows "\<exists>e. registerProduct s c t b n br hs i d u = Inl e"
proof (cases "registerProduct s c t b n br hs i d u")
  case (Inl e)
  then show ?thesis by blast
next
  case (Inr p)
  then obtain s' r where "registerProduct s c t b n br hs i d u = Inr (s', r)"
    by (cases p) simp
  from registerProduct_success [OF this] assms show ?thesis by simp
qed

text \<open>
  Claim C4, as amended. For an authorized caller on a running, idle contract the
  checks of \<open>registerProduct\<close> run in the written order, and each error is
  raised exactly when its own condition holds and every earlier check passes:
  \<open>InvalidBatchId\<close> iff the batch id is zero; \<open>EmptyName\<close> iff the id is nonzero
  and the name is empty; \<open>EmptyBrand\<close> iff moreover the name is not empty and the
  brand is; \<open>NoSerials\<close> iff moreover the brand is not empty and there is no
  serial; \<open>BatchExists\<close> iff moreover there is a serial and the id is registered.
  For every caller and all arguments, a call on a registered id reverts, and
  every call of a caller that is not authorized reverts with \<open>NotAuthorized\<close>.
  When all
  checks pass and the batch counter is below its maximum, the call succeeds: it
  writes the batch record, records the batch for every supplied serial and for no
  other, adds exactly one to \<open>totalProducts\<close> and emits \<open>ProductRegistered\<close>.
  A reverted call changes no storage.
\<close>

theorem registerProduct_validation:
  assumes auth: "authorizedMakers s c" and running: "\<not> paused s" and idle: "locked s = 0"
  shows "(registerProduct s c t b n br hs i d u = Inl InvalidBatchId \<longleftrightarrow> b = 0) \<and>
     (registerProduct s c t b n br hs i d u = Inl EmptyName \<longleftrightarrow> b \<noteq> 0 \<and> n = []) \<and>
     (registerProduct s c t b n br hs i d u = Inl EmptyBrand \<longleftrightarrow>
        b \<noteq> 0 \<and> n \<noteq> [] \<and> br = []) \<and>
     (registerProduct s c t b n br hs i d u = Inl NoSerials \<longleftrightarrow>
        b \<noteq> 0 \<and> n \<noteq> [] \<and> br \<noteq> [] \<and> hs = []) \<and>
     (registerProduct s c t b n br hs i d u = Inl BatchExists \<longleftrightarrow>
        b \<noteq> 0 \<and> n \<noteq> [] \<and> br \<noteq> [] \<and> hs \<noteq> [] \<and> exists (products s b)) \<and>
     (\<forall>c' t' n' br' hs' i' d' u'. exists (products s b) \<longrightarrow>
        (\<exists>e. registerProduct s c' t' b n' br' hs' i' d' u' = Inl e)) \<and>
     (\<forall>c' t' b' n' br' hs' i' d' u'. \<not> authorizedMakers s c' \<longrightarrow>
        registerProduct s c' t' b' n' br' hs' i' d' u' = Inl NotAuthorized) \<and>
     (b \<noteq> 0 \<and> n \<noteq> [] \<and> br \<noteq> [] \<and> hs \<noteq> [] \<and> \<not> exists (products s b) \<and>
      unat (totalProducts s) + 1 < 2 ^ 256 \<longrightarrow>
        (\<exists>s'. registerProduct s c t b n br hs i d u = Inr (s', ()) \<and>
           products s' b = \<lparr> name = n, brand = br, exists = True, registeredAt = t,
                              ipfsHash = i, description = d, imageUrl = u \<rparr> \<and>
           (\<forall>b'. b' \<noteq> b \<longrightarrow> products s' b' = products s b') \<and>
           (\<forall>h \<in> set hs. serialToBatch s' h = b) \<and>
           (\<forall>h. h \<notin> set hs \<longrightarrow> serialToBatch s' h = serialToBatch s h) \<and>
           unat (totalProducts s') = unat (totalProducts s) + 1 \<and>
           events s' = events s @ [ProductRegistered b n br (of_nat (length hs))]))"
proof -
  note c = registerProduct_cases [OF auth running idle, of t b n br hs i d u]
  have e1: "registerProduct s c t b n br hs i d u = Inl InvalidBatchId \<longleftrightarrow> b = 0"
    by (simp add: c)
  have e2: "registerProduct s c t b n br hs i d u = Inl EmptyName \<longleftrightarrow> b \<noteq> 0 \<and> n = []"
    by (simp add: c)
  have e3: "registerProduct s c t b n br hs i d u = Inl EmptyBrand \<longleftrightarrow>
        b \<noteq> 0 \<and> n \<noteq> [] \<and> br = []"
    by (simp add: c)
  have e4: "registerProduct s c t b n br hs i d u = Inl NoSerials \<longleftrightarrow>
        b \<noteq> 0 \<and> n \<noteq> [] \<and> br \<noteq> [] \<and> hs = []"
    by (simp add: c)
  have e5: "registerProduct s c t b n br hs i d u = Inl BatchExists \<longleftrightarrow>
        b \<noteq> 0 \<and> n \<noteq> [] \<and> br \<noteq> [] \<and> hs \<noteq> [] \<and> exists (products s b)"
    by (simp add: c)
  have e6: "\<forall>c' t' n' br' hs' i' d' u'. exists (products s b) \<longrightarrow>
        (\<exists>e. registerProduct s c' t' b n' br' hs' i' d' u' = Inl e)"
    using registerProduct_exists_fails by blast
  have e8: "\<forall>c' t' b' n' br' hs' i' d' u'. \<not> authorizedMakers s c' \<longrightarrow>
        registerProduct s c' t' b' n' br' hs' i' d' u' = Inl NotAuthorized"
    by (simp add: registerProduct_def modifier_defs)
  have e7: "b \<noteq> 0 \<and> n \<noteq> [] \<and> br \<noteq> [] \<and> hs \<noteq> [] \<and> \<not> exists (products s b) \<and>
      unat (totalProducts s) + 1 < 2 ^ 256 \<longrightarrow>
        (\<exists>s'. registerProduct s c t b n br hs i d u = Inr (s', ()) \<and>
           products s' b = \<lparr> name = n, brand = br, exists = True, registeredAt = t,
                              ipfsHash = i, description = d, imageUrl = u \<rparr> \<and>
           (\<forall>b'. b' \<noteq> b \<longrightarrow> products s' b' = products s b') \<and>
           (\<forall>h \<in> set hs. serialToBatch s' h = b) \<and>
           (\<forall>h. h \<notin> set hs \<longrightarrow> serialToBatch s' h = serialToBatch s h) \<and>
           unat (totalProducts s') = unat (totalProducts s) + 1 \<and>
           events s' = events s @ [ProductRegistered b n br (of_nat (length hs))])"
    by (simp add: c unat_inc)
  from e1 e2 e3 e4 e5 e6 e8 e7 show ?thesis by (intro conjI)
qed

theorem registerProduct_validation_witness:
  "authorizedMakers (constructor 1) 1 \<and> \<not> paused (constructor 1) \<and> locked (constructor 1) = 0 \<and>
   registerProduct (constructor 1) 1 100 0 ''Widget'' ''Acme'' [11, 12] [] [] [] = Inl InvalidBatchId \<and>
   registerProduct (constructor 1) 1 100 1 [] ''Acme'' [11, 12] [] [] [] = Inl EmptyName \<and>
   registerProduct (constructor 1) 1 100 1 ''Widget'' [] [11, 12] [] [] [] = Inl EmptyBrand \<and>
   registerProduct (constructor 1) 1 100 1 ''Widget'' ''Acme'' [] [] [] [] = Inl NoSerials \<and>
   (\<exists>s'. registerProduct (constructor 1) 1 100 1 ''Widget'' ''Acme'' [11, 12] [] [] [] = Inr (s', ()) \<and>
      exists (products s' 1) \<and> serialToBatch s' 11 = 1 \<and> serialToBatch s' 12 = 1 \<and>
      unat (totalProducts s') = 1) \<and>
   authorizedMakers widget_state 1 \<and> \<not> paused widget_state \<and> locked widget_state = 0 \<and>
   exists (products widget_state 1) \<and>
   registerProduct widget_state 1 300 1 ''Widget'' ''Acme'' [13] [] [] [] = Inl BatchExists"
proof -
  have h: "authorizedMakers (constructor 1) 1" "\<not> paused (constructor 1)"
    "locked (constructor 1) = 0"
    by (simp_all add: constructor_def)
  have k: "authorizedMakers widget_state 1" "\<not> paused widget_state" "locked widget_state = 0"
    by (simp_all add: widget_state_def constructor_def)
  have fresh: "\<not> exists (products (constructor 1) 1)" "unat (totalProducts (constructor 1)) = 0"
    by (simp_all add: constructor_def)
  have old: "exists (products widget_state 1)"
    by (simp add: widget_state_def)
  have a: "registerProduct (constructor 1) 1 100 0 ''Widget'' ''Acme'' [11, 12] [] [] [] =
      Inl InvalidBatchId"
    using registerProduct_validation [OF h, of 100 0 "''Widget''" "''Acme''" "[11, 12]" "[]" "[]" "[]"]
    by simp
  have b: "registerProduct (constructor 1) 1 100 1 [] ''Acme'' [11, 12] [] [] [] = Inl EmptyName"
    using registerProduct_validation [OF h, of 100 1 "[]" "''Acme''" "[11, 12]" "[]" "[]" "[]"]
    by simp
  have c: "registerProduct (constructor 1) 1 100 1 ''Widget'' [] [11, 12] [] [] [] = Inl EmptyBrand"
    using registerProduct_validation [OF h, of 100 1 "''Widget''" "[]" "[11, 12]" "[]" "[]" "[]"]
    by simp
  have d: "registerProduct (constructor 1) 1 100 1 ''Widget'' ''Acme'' [] [] [] [] = Inl NoSerials"
    using registerProduct_validation [OF h, of 100 1 "''Widget''" "''Acme''" "[]" "[]" "[]" "[]"]
    by simp
  have e: "\<exists>s'. registerProduct (constructor 1) 1 100 1 ''Widget'' ''Acme'' [11, 12] [] [] [] =
        Inr (s', ()) \<and>
      exists (products s' 1) \<and> serialToBatch s' 11 = 1 \<and> serialToBatch s' 12 = 1 \<and>
      unat (totalProducts s') = 1"
    using registerProduct_validation [OF h, of 100 1 "''Widget''" "''Acme''" "[11, 12]" "[]" "[]" "[]"]
      fresh
    by auto
  have f: "registerProduct widget_state 1 300 1 ''Widget'' ''Acme'' [13] [] [] [] = Inl BatchExists"
    using registerProduct_validation [OF k, of 300 1 "''Widget''" "''Acme''" "[13]" "[]" "[]" "[]"]
      old
    by simp
  from h k old a b c d e f show ?thesis by (intro conjI)
qed

text \<open>
  Claim C4 as stated fails. With batch id zero and an empty name the call of the
  authorized deployer reverts with \<open>InvalidBatchId\<close>, not \<open>EmptyName\<close>, although
  the name is empty. On the registered batch 1, the call of address 2, which is
  not authorized, reverts with \<open>NotAuthorized\<close>, not \<open>BatchExists\<close>.
\<close>

theorem registerProduct_validation_counterexample:
  "authorizedMakers (constructor 1) 1 \<and> \<not> paused (constructor 1) \<and>
   registerProduct (constructor 1) 1 100 0 [] ''Acme'' [11, 12] [] [] [] = Inl InvalidBatchId \<and>
   registerProduct (constructor 1) 1 100 0 [] ''Acme'' [11, 12] [] [] [] \<noteq> Inl EmptyName \<and>
   exists (products widget_state 1) \<and> \<not> paused widget_state \<and>
   registerProduct widget_state 2 300 1 ''Widget'' ''Acme'' [13] [] [] [] = Inl NotAuthorized \<and>
   registerProduct widget_state 2 300 1 ''Widget'' ''Acme'' [13] [] [] [] \<noteq> Inl BatchExists"
  by (simp add: registerProduct_def modifier_defs constructor_def widget_state_def)

lemma regrouped_state_registered:
  "registerProduct widget_state 1 150 2 ''Gadget'' ''Acme'' [11] [] [] [] =
     Inr (regrouped_state, ())"
  by (simp add: registerProduct_def modifier_defs constructor_def checked_inc_def widget_state_def
      regrouped_state_def register_loop.simps)

lemma verify_not_member:
  assumes "\<not> paused s" "locked s \<noteq> 1" "b \<noteq> 0" "exists (products s b)"
    "serialToBatch s f \<noteq> b"
  shows "verify s c t f b = Inl SerialNotInBatch"
  using assms by (simp add: verify_def modifier_defs)

subsection \<open>Batch verification\<close>

lemma loop_step_invalid:
  assumes "i < length hs" "entry_invalid s (hs ! i) (bs ! i)"
  shows "batchVerify_loop i hs bs c t s results =
           batchVerify_loop (i + 1) hs bs c t s (results[i := False])"
  using assms by (subst batchVerify_loop.simps) (auto simp add: entry_invalid_def)

lemma loop_step_valid:
  assumes "i < length hs" "\<not> entry_invalid s (hs ! i) (bs ! i)" "\<not> paused s"
  shows "batchVerify_loop i hs bs c t s results =
           (case verify (s\<lparr>locked := 0\<rparr>) c t (hs ! i) (bs ! i) of
              Inl e \<Rightarrow> Inl e
            | Inr (s', r) \<Rightarrow>
                batchVerify_loop (i + 1) hs bs c t (s'\<lparr>locked := locked s\<rparr>) (results[i := r]))"
  using assms
  by (subst batchVerify_loop.simps)
     (simp add: entry_invalid_def verify_def modifier_defs Let_def checked_inc_def)

lemma entry_invalid_cong:
  "products s' = products s \<Longrightarrow> serialToBatch s' = serialToBatch s \<Longrightarrow>
   entry_invalid s' f b = entry_invalid s f b"
  by (simp add: entry_invalid_def)

lemma loop_refines:
  assumes "\<not> paused s" "length hs = length bs" "length results = length hs" "i \<le> length hs"
  shows "batchVerify_loop i hs bs c t s results =
     (case batch_entries_spec (s\<lparr>locked := 0\<rparr>) c t (drop i (zip hs bs)) of
        Inl e \<Rightarrow> Inl e
      | Inr (s', rs) \<Rightarrow> Inr (s'\<lparr>locked := locked s\<rparr>, take i results @ rs))"
  using assms
proof (induction "length hs - i" arbitrary: i s results)
  case 0
  then have "i = length hs" by simp
  with 0 show ?case by (subst batchVerify_loop.simps) simp
next
  case (Suc n)
  then have lt: "i < length hs" and n: "n = length hs - (i + 1)" and le: "i + 1 \<le> length hs"
    by simp_all
  from lt Suc.prems have d: "drop i (zip hs bs) = (hs ! i, bs ! i) # drop (i + 1) (zip hs bs)"
    by (simp add: Cons_nth_drop_Suc [symmetric])
  have tk: "\<And>r. take (Suc i) (results[i := r]) = take i results @ [r]"
    using lt Suc.prems by (simp add: take_Suc_conv_app_nth)
  show ?case
  proof (cases "entry_invalid s (hs ! i) (bs ! i)")
    case True
    then have inv0: "entry_invalid (s\<lparr>locked := 0\<rparr>) (hs ! i) (bs ! i)"
      by (simp add: entry_invalid_def)
    have "batchVerify_loop i hs bs c t s results =
            batchVerify_loop (i + 1) hs bs c t s (results[i := False])"
      by (rule loop_step_invalid [OF lt True])
    also have "\<dots> =
       (case batch_entries_spec (s\<lparr>locked := 0\<rparr>) c t (drop (i + 1) (zip hs bs)) of
          Inl e \<Rightarrow> Inl e
        | Inr (s', rs) \<Rightarrow>
            Inr (s'\<lparr>locked := locked s\<rparr>, take (i + 1) (results[i := False]) @ rs))"
      using Suc.prems le by (intro Suc.hyps(1) [OF n]) simp_all
    finally show ?thesis
      using inv0 by (simp add: d tk split: sum.splits)
  next
    case False
    then have val0: "\<not> entry_invalid (s\<lparr>locked := 0\<rparr>) (hs ! i) (bs ! i)"
      by (simp add: entry_invalid_def)
    note step = loop_step_valid [OF lt False Suc.prems(1), of c t results]
    show ?thesis
    proof (cases "verify (s\<lparr>locked := 0\<rparr>) c t (hs ! i) (bs ! i)")
      case (Inl e)
      with step val0 show ?thesis by (simp add: d)
    next
      case (Inr p)
      obtain s' r where p: "p = (s', r)" by (cases p)
      from verify_success [OF Inr [unfolded p]] Suc.prems(1)
      have run': "\<not> paused s'" and idle': "locked s' = 0" by simp_all
      then have same: "s'\<lparr>locked := locked s, locked := 0\<rparr> = s'" by simp
      have "batchVerify_loop (i + 1) hs bs c t (s'\<lparr>locked := locked s\<rparr>) (results[i := r]) =
        (case batch_entries_spec (s'\<lparr>locked := locked s, locked := 0\<rparr>) c t
                (drop (i + 1) (zip hs bs)) of
           Inl e \<Rightarrow> Inl e
         | Inr (s'', rs) \<Rightarrow>
             Inr (s''\<lparr>locked := locked (s'\<lparr>locked := locked s\<rparr>)\<rparr>,
                  take (i + 1) (results[i := r]) @ rs))"
        using Suc.prems le run' by (intro Suc.hyps(1) [OF n]) simp_all
      with step Inr p val0 same show ?thesis
        by (simp add: d tk split: sum.splits)
    qed
  qed
qed

lemma batch_entries_spec_frame:
  assumes "batch_entries_spec s c t es = Inr (s', rs)"
  shows "length rs = length es \<and> products s' = products s \<and>
         serialToBatch s' = serialToBatch s \<and> paused s' = paused s \<and>
         (locked s = 0 \<longrightarrow> locked s' = 0)"
  using assms
proof (induction es arbitrary: s rs)
  case Nil
  then show ?case by simp
next
  case (Cons x es)
  obtain f b where x: "x = (f, b)" by (cases x)
  show ?case
  proof (cases "entry_invalid s f b")
    case True
    with Cons.prems x obtain rs' where
      rest: "batch_entries_spec s c t es = Inr (s', rs')" and rs: "rs = False # rs'"
      by (auto split: sum.splits)
    from Cons.IH [OF rest] rs show ?thesis by simp
  next
    case False
    with Cons.prems x obtain s1 r rs' where
      v: "verify s c t f b = Inr (s1, r)" and
      rest: "batch_entries_spec s1 c t es = Inr (s', rs')" and rs: "rs = r # rs'"
      by (auto split: sum.splits)
    from verify_success [OF v] have "products s1 = products s"
      "serialToBatch s1 = serialToBatch s" "paused s1 = paused s" "locked s1 = 0"
      by simp_all
    with Cons.IH [OF rest] rs show ?thesis by simp
  qed
qed

lemma batchVerify_refines_general:
  assumes "\<not> paused s" "locked s \<noteq> 1" "length fs = length bs"
  shows "batchVerify s c t fs bs = batch_entries_spec (s\<lparr>locked := 0\<rparr>) c t (zip fs bs)"
proof -
  have "batchVerify_loop 0 fs bs c t (s\<lparr>locked := 1\<rparr>) (replicate (length fs) False) =
     (case batch_entries_spec (s\<lparr>locked := 1, locked := 0\<rparr>) c t (drop 0 (zip fs bs)) of
        Inl e \<Rightarrow> Inl e
      | Inr (s', rs) \<Rightarrow>
          Inr (s'\<lparr>locked := locked (s\<lparr>locked := 1\<rparr>)\<rparr>,
               take 0 (replicate (length fs) False) @ rs))"
    using assms by (intro loop_refines) simp_all
  then have loop: "batchVerify_loop 0 fs bs c t (s\<lparr>locked := 1\<rparr>) (replicate (length fs) False) =
     (case batch_entries_spec (s\<lparr>locked := 0\<rparr>) c t (zip fs bs) of
        Inl e \<Rightarrow> Inl e
      | Inr (s', rs) \<Rightarrow> Inr (s'\<lparr>locked := 1\<rparr>, rs))"
    by (simp split: sum.splits)
  show ?thesis
  proof (cases "batch_entries_spec (s\<lparr>locked := 0\<rparr>) c t (zip fs bs)")
    case (Inl e)
    with loop assms show ?thesis by (simp add: batchVerify_def modifier_defs)
  next
    case (Inr p)
    obtain s' rs where p: "p = (s', rs)" by (cases p)
    from batch_entries_spec_frame [OF Inr [unfolded p]] have "locked s' = 0" by simp
    then have "s'\<lparr>locked := 0\<rparr> = s'" by simp
    with loop assms Inr p show ?thesis by (simp add: batchVerify_def modifier_defs)
  qed
qed

lemma batchVerify_refines:
  assumes "\<not> paused s" "locked s = 0" "length fs = length bs"
  shows "batchVerify s c t fs bs = batch_entries_spec s c t (zip fs bs)"
proof -
  from assms(2) have "s\<lparr>locked := 0\<rparr> = s" by simp
  with batchVerify_refines_general [of s fs bs c t] assms show ?thesis by simp
qed

lemma batch_entries_spec_invalid_slot:
  assumes "batch_entries_spec s c t es = Inr (s', rs)" "i < length es"
    "entry_invalid s (fst (es ! i)) (snd (es ! i))"
  shows "\<not> rs ! i"
  using assms
proof (induction es arbitrary: s rs i)
  case Nil
  then show ?case by simp
next
  case (Cons x es)
  obtain f b where x: "x = (f, b)" by (cases x)
  show ?case
  proof (cases "entry_invalid s f b")
    case True
    with Cons.prems x obtain rs' where
      rest: "batch_entries_spec s c t es = Inr (s', rs')" and rs: "rs = False # rs'"
      by (auto split: sum.splits)
    show ?thesis
    proof (cases i)
      case 0
      with rs show ?thesis by simp
    next
      case (Suc j)
      with Cons.prems Cons.IH [OF rest, of j] rs show ?thesis by simp
    qed
  next
    case False
    with Cons.prems x obtain s1 r rs' where
      v: "verify s c t f b = Inr (s1, r)" and
      rest: "batch_entries_spec s1 c t es = Inr (s', rs')" and rs: "rs = r # rs'"
      by (auto split: sum.splits)
    from verify_success [OF v] have same: "\<And>f b. entry_invalid s1 f b = entry_invalid s f b"
      by (intro entry_invalid_cong) simp_all
    show ?thesis
    proof (cases i)
      case 0
      with Cons.prems x False show ?thesis by simp
    next
      case (Suc j)
      with Cons.prems Cons.IH [OF rest, of j] rs same show ?thesis by simp
    qed
  qed
qed

lemma verify_error_Panic:
  assumes "\<not> paused s" "locked s = 0" "\<not> entry_invalid s f b" "verify s c t f b = Inl e"
  shows "e = Panic"
  using assms
  by (auto simp add: verify_def modifier_defs Let_def checked_inc_def entry_invalid_def
      split: if_splits)

lemma batch_entries_spec_error:
  assumes "\<not> paused s" "locked s = 0" "batch_entries_spec s c t es = Inl e"
  shows "e = Panic"
  using assms
proof (induction es arbitrary: s)
  case Nil
  then show ?case by simp
next
  case (Cons x es)
  obtain f b where x: "x = (f, b)" by (cases x)
  show ?case
  proof (cases "entry_invalid s f b")
    case True
    with Cons.prems x have "batch_entries_spec s c t es = Inl e"
      by (auto split: sum.splits)
    with Cons.IH Cons.prems show ?thesis by blast
  next
    case False
    show ?thesis
    proof (cases "verify s c t f b")
      case (Inl e')
      with Cons.prems x False have "e' = e" by simp
      with Inl verify_error_Panic [OF Cons.prems(1,2) False] show ?thesis by blast
    next
      case (Inr p)
      obtain s1 r where p: "p = (s1, r)" by (cases p)
      from verify_success [OF Inr [unfolded p]] Cons.prems(1)
      have "\<not> paused s1" "locked s1 = 0" by simp_all
      moreover from Cons.prems x False Inr p have "batch_entries_spec s1 c t es = Inl e"
        by (auto split: sum.splits)
      ultimately show ?thesis by (rule Cons.IH)
    qed
  qed
qed

lemma unat_inc_le: "unat (x + 1 :: uint256) \<le> unat x + 1"
proof -
  have "unat (x + 1) = (unat x + unat (1 :: uint256)) mod 2 ^ LENGTH(256)"
    by (rule unat_word_ariths)
  also have "\<dots> \<le> unat x + unat (1 :: uint256)"
    by (rule mod_less_eq_dividend)
  finally show ?thesis by simp
qed

lemma room_head: "a + Suc n < (N :: nat) \<Longrightarrow> a + 1 < N"
  by simp

lemma room_tail: "a + Suc n < (N :: nat) \<Longrightarrow> a' \<le> a + 1 \<Longrightarrow> a' + n < N"
  by simp

lemma batch_entries_spec_total:
  assumes "\<not> paused s" "locked s = 0"
    "unat (totalVerifications s) + length es < 2 ^ 256"
    "\<forall>b. unat (batchVerificationCount s b) + length es < 2 ^ 256"
  shows "\<exists>s' rs. batch_entries_spec s c t es = Inr (s', rs)"
  using assms
proof (induction es arbitrary: s)
  case Nil
  then show ?case by simp
next
  case (Cons x es)
  obtain f b where x: "x = (f, b)" by (cases x)
  from Cons.prems have tvs: "unat (totalVerifications s) + Suc (length es) < 2 ^ 256"
    and bcs: "\<And>b. unat (batchVerificationCount s b) + Suc (length es) < 2 ^ 256"
    by simp_all
  have tv: "unat (totalVerifications s) + 1 < 2 ^ 256"
    by (rule room_head [OF tvs])
  have bc: "\<And>b. unat (batchVerificationCount s b) + 1 < 2 ^ 256"
    by (rule room_head [OF bcs])
  show ?case
  proof (cases "entry_invalid s f b")
    case True
    have "\<exists>s' rs. batch_entries_spec s c t es = Inr (s', rs)"
    proof (rule Cons.IH [OF Cons.prems(1,2)])
      show "unat (totalVerifications s) + length es < 2 ^ 256"
        by (rule room_tail [OF tvs]) simp
      show "\<forall>b. unat (batchVerificationCount s b) + length es < 2 ^ 256"
      proof
        fix b'
        show "unat (batchVerificationCount s b') + length es < 2 ^ 256"
          by (rule room_tail [OF bcs [of b']]) simp
      qed
    qed
    with True x show ?thesis by auto
  next
    case False
    then have g: "b \<noteq> 0" "exists (products s b)" "serialToBatch s f = b"
      by (simp_all add: entry_invalid_def)
    have "\<exists>s1. verify s c t f b = Inr (s1, \<not> serialVerified s f)"
    proof (cases "serialVerified s f")
      case True
      with verify_repeat [OF Cons.prems(1,2) g True, of c t] show ?thesis by simp
    next
      case False
      with verify_authentic [OF Cons.prems(1,2) g False tv bc, of c t] show ?thesis by simp
    qed
    then obtain s1 where v: "verify s c t f b = Inr (s1, \<not> serialVerified s f)" by blast
    note vs = verify_success [OF v]
    from vs Cons.prems(1) have run1: "\<not> paused s1" and idle1: "locked s1 = 0" by simp_all
    from vs have s1: "s1 = s\<lparr>locked := 0,
            serialVerified := (serialVerified s)(f := True),
            totalVerifications :=
              (if serialVerified s f then totalVerifications s else totalVerifications s + 1),
            batchVerificationCount :=
              (if serialVerified s f then batchVerificationCount s
               else (batchVerificationCount s)(b := batchVerificationCount s b + 1)),
            verificationHistory := (verificationHistory s)(f := verificationHistory s f @
              [\<lparr> serialHash = f, batchId = b, verifier = c, timestamp = t,
                 isAuthentic = \<not> serialVerified s f \<rparr>]),
            events := events s @ [Verified f b (\<not> serialVerified s f) c t]\<rparr>"
      by blast
    have "totalVerifications s1 =
        (if serialVerified s f then totalVerifications s else totalVerifications s + 1)"
      by (subst s1) simp
    then have "unat (totalVerifications s1) \<le> unat (totalVerifications s) + 1"
      using unat_inc_le [of "totalVerifications s"] by simp
    then have tv1: "unat (totalVerifications s1) + length es < 2 ^ 256"
      by (rule room_tail [OF tvs])
    have bv: "batchVerificationCount s1 =
        (if serialVerified s f then batchVerificationCount s
         else (batchVerificationCount s)(b := batchVerificationCount s b + 1))"
      by (subst s1) simp
    have bc1: "\<forall>b'. unat (batchVerificationCount s1 b') + length es < 2 ^ 256"
    proof
      fix b'
      have "unat (batchVerificationCount s1 b') \<le> unat (batchVerificationCount s b') + 1"
        using unat_inc_le [of "batchVerificationCount s b"] by (simp add: bv)
      then show "unat (batchVerificationCount s1 b') + length es < 2 ^ 256"
        by (rule room_tail [OF bcs [of b']])
    qed
    from Cons.IH [OF run1 idle1 tv1 bc1] obtain s' rs where
      "batch_entries_spec s1 c t es = Inr (s', rs)" by blast
    with v x False show ?thesis by simp
  qed
qed

lemma batchVerify_running:
  assumes running: "\<not> paused s" and idle: "locked s = 0"
  shows "(batchVerify s c t fs bs = Inl (Error ''ChainCheck: arrays length mismatch'') \<longleftrightarrow>
            length fs \<noteq> length bs) \<and>
         (length fs = length bs \<longrightarrow>
            batchVerify s c t fs bs = batch_entries_spec s c t (zip fs bs) \<and>
            (\<forall>e. batchVerify s c t fs bs = Inl e \<longrightarrow> e = Panic) \<and>
            (\<forall>s' rs. batchVerify s c t fs bs = Inr (s', rs) \<longrightarrow>
               length rs = length fs \<and>
               (\<forall>i < length fs. entry_invalid s (fs ! i) (bs ! i) \<longrightarrow> \<not> rs ! i)) \<and>
            (unat (totalVerifications s) + length fs < 2 ^ 256 \<and>
             (\<forall>b. unat (batchVerificationCount s b) + length fs < 2 ^ 256) \<longrightarrow>
               (\<exists>s' rs. batchVerify s c t fs bs = Inr (s', rs))))"
proof (cases "length fs = length bs")
  case False
  with running idle show ?thesis
    by (simp add: batchVerify_def modifier_defs)
next
  case True
  have eq: "batchVerify s c t fs bs = batch_entries_spec s c t (zip fs bs)"
    by (rule batchVerify_refines [OF running idle True])
  have err: "\<forall>e. batchVerify s c t fs bs = Inl e \<longrightarrow> e = Panic"
    using batch_entries_spec_error [OF running idle] by (simp add: eq)
  then have mismatch: "batchVerify s c t fs bs \<noteq> Inl (Error ''ChainCheck: arrays length mismatch'')"
    by auto
  have slots: "\<forall>s' rs. batchVerify s c t fs bs = Inr (s', rs) \<longrightarrow>
               length rs = length fs \<and>
               (\<forall>i < length fs. entry_invalid s (fs ! i) (bs ! i) \<longrightarrow> \<not> rs ! i)"
  proof (intro allI impI)
    fix s' rs
    assume "batchVerify s c t fs bs = Inr (s', rs)"
    then have sp: "batch_entries_spec s c t (zip fs bs) = Inr (s', rs)"
      by (simp add: eq)
    from batch_entries_spec_frame [OF sp] True have len: "length rs = length fs" by simp
    have "\<forall>i < length fs. entry_invalid s (fs ! i) (bs ! i) \<longrightarrow> \<not> rs ! i"
    proof (intro allI impI)
      fix i
      assume i: "i < length fs" and inv: "entry_invalid s (fs ! i) (bs ! i)"
      from i True have "i < length (zip fs bs)" by simp
      moreover from i True inv
      have "entry_invalid s (fst (zip fs bs ! i)) (snd (zip fs bs ! i))" by simp
      ultimately show "\<not> rs ! i"
        by (rule batch_entries_spec_invalid_slot [OF sp])
    qed
    with len show "length rs = length fs \<and>
        (\<forall>i < length fs. entry_invalid s (fs ! i) (bs ! i) \<longrightarrow> \<not> rs ! i)" by simp
  qed
  have total: "unat (totalVerifications s) + length fs < 2 ^ 256 \<and>
             (\<forall>b. unat (batchVerificationCount s b) + length fs < 2 ^ 256) \<longrightarrow>
               (\<exists>s' rs. batchVerify s c t fs bs = Inr (s', rs))"
    using batch_entries_spec_total [OF running idle, of "zip fs bs" c t] True
    by (simp add: eq)
  from True eq err mismatch slots total show ?thesis by simp
qed

text \<open>
  Claim C3, as amended. Take an idle contract. While it is paused, \<open>batchVerify\<close>
  reverts with \<open>ContractPaused\<close> whatever the arrays are. While it is running,
  \<open>batchVerify\<close> reverts with the length mismatch error exactly when the two
  arrays differ in length. On arrays of the same length it computes what the
  specification \<open>batch_entries_spec\<close> says: entries are processed in order, an
  invalid entry gives \<open>False\<close> without any effect, every other entry is a single
  \<open>verify\<close>. So it never reverts on invalid entries: its only possible error is
  the overflow of a checked counter increment, which cannot occur while the
  counters have room for one increment per entry. The array of results has the
  length of the inputs, and the slot of every invalid entry holds \<open>False\<close>.
\<close>

theorem batchVerify_entries:
  assumes idle: "locked s = 0"
  shows "(paused s \<longrightarrow> batchVerify s c t fs bs = Inl ContractPaused) \<and>
         (\<not> paused s \<longrightarrow>
            (batchVerify s c t fs bs = Inl (Error ''ChainCheck: arrays length mismatch'') \<longleftrightarrow>
               length fs \<noteq> length bs) \<and>
            (length fs = length bs \<longrightarrow>
               batchVerify s c t fs bs = batch_entries_spec s c t (zip fs bs) \<and>
               (\<forall>e. batchVerify s c t fs bs = Inl e \<longrightarrow> e = Panic) \<and>
               (\<forall>s' rs. batchVerify s c t fs bs = Inr (s', rs) \<longrightarrow>
                  length rs = length fs \<and>
                  (\<forall>i < length fs. entry_invalid s (fs ! i) (bs ! i) \<longrightarrow> \<not> rs ! i)) \<and>
               (unat (totalVerifications s) + length fs < 2 ^ 256 \<and>
                (\<forall>b. unat (batchVerificationCount s b) + length fs < 2 ^ 256) \<longrightarrow>
                  (\<exists>s' rs. batchVerify s c t fs bs = Inr (s', rs)))))"
proof (cases "paused s")
  case True
  show ?thesis
  proof (rule conjI)
    show "paused s \<longrightarrow> batchVerify s c t fs bs = Inl ContractPaused"
      by (intro impI) (rule paused_blocks(4))
  qed (simp add: True)
next
  case False
  show ?thesis
  proof (rule conjI)
    show "paused s \<longrightarrow> batchVerify s c t fs bs = Inl ContractPaused"
      by (simp add: False)
  qed (intro impI, rule batchVerify_running [OF False idle])
qed

theorem batchVerify_entries_witness:
  "\<not> paused widget_state \<and> locked widget_state = 0 \<and>
   batchVerify widget_state 2 200 [11] [] = Inl (Error ''ChainCheck: arrays length mismatch'') \<and>
   entry_invalid widget_state 13 99 \<and>
   (\<exists>s'. batchVerify widget_state 2 200 [11, 13, 11] [1, 99, 1] = Inr (s', [True, False, False]) \<and>
      serialVerified s' 11 \<and> length (verificationHistory s' 11) = 2 \<and>
      verificationHistory s' 13 = [] \<and> unat (totalVerifications s') = 1) \<and>
   paused paused_state \<and> locked paused_state = 0 \<and>
   batchVerify paused_state 2 200 [11, 13, 11] [1, 99, 1] = Inl ContractPaused"
proof -
  have h: "\<not> paused widget_state" and i: "locked widget_state = 0"
    by (simp_all add: widget_state_def constructor_def)
  have p: "paused paused_state" and j: "locked paused_state = 0"
    by (simp_all add: paused_state_def constructor_def)
  have inv: "entry_invalid widget_state 13 99"
    by (simp add: entry_invalid_def widget_state_def constructor_def)
  have a: "batchVerify widget_state 2 200 [11] [] =
      Inl (Error ''ChainCheck: arrays length mismatch'')"
    using batchVerify_entries [OF i, of 2 200 "[11]" "[]"] h by simp
  have "batchVerify widget_state 2 200 [11, 13, 11] [1, 99, 1] =
      batch_entries_spec widget_state 2 200 (zip [11, 13, 11] [1, 99, 1])"
    using batchVerify_entries [OF i, of 2 200 "[11, 13, 11]" "[1, 99, 1]"] h by simp
  moreover have "\<exists>s'. batch_entries_spec widget_state 2 200 (zip [11, 13, 11] [1, 99, 1]) =
        Inr (s', [True, False, False]) \<and>
      serialVerified s' 11 \<and> length (verificationHistory s' 11) = 2 \<and>
      verificationHistory s' 13 = [] \<and> unat (totalVerifications s') = 1"
    by (simp add: entry_invalid_def verify_def modifier_defs checked_inc_def Let_def
        widget_state_def constructor_def)
  ultimately have b: "\<exists>s'. batchVerify widget_state 2 200 [11, 13, 11] [1, 99, 1] =
        Inr (s', [True, False, False]) \<and>
      serialVerified s' 11 \<and> length (verificationHistory s' 11) = 2 \<and>
      verificationHistory s' 13 = [] \<and> unat (totalVerifications s') = 1"
    by simp
  have c: "batchVerify paused_state 2 200 [11, 13, 11] [1, 99, 1] = Inl ContractPaused"
    using batchVerify_entries [OF j, of 2 200 "[11, 13, 11]" "[1, 99, 1]"] p by simp
  from h i a inv b p j c show ?thesis by (intro conjI)
qed

text \<open>
  Claim C3 as stated fails on the paused contract: with arrays of lengths one and
  zero \<open>batchVerify\<close> reverts with \<open>ContractPaused\<close>, not with the length
  mismatch error, because \<open>whenNotPaused\<close> runs before the length check.
\<close>

theorem batchVerify_entries_counterexample:
  "paused paused_state \<and> locked paused_state = 0 \<and>
   length [11 :: bytes32] \<noteq> length ([] :: uint256 list) \<and>
   batchVerify paused_state 2 200 [11] [] = Inl ContractPaused \<and>
   batchVerify paused_state 2 200 [11] [] \<noteq> Inl (Error ''ChainCheck: arrays length mismatch'')"
  by (simp add: batchVerify_def modifier_defs paused_state_def constructor_def)

subsection \<open>What each call leaves unchanged\<close>

lemma authorizeManufacturer_frame:
  assumes "authorizeManufacturer s c a g = Inr (s', r)"
  shows "locked s' = 0 \<and> serialVerified s' = serialVerified s \<and>
         serialToBatch s' = serialToBatch s \<and> products s' = products s \<and>
         verificationHistory s' = verificationHistory s"
  using assms
  by (auto simp add: authorizeManufacturer_def modifier_defs Let_def split: if_splits)

lemma transferOwnership_frame:
  assumes "transferOwnership s c a = Inr (s', r)"
  shows "locked s' = 0 \<and> serialVerified s' = serialVerified s \<and>
         serialToBatch s' = serialToBatch s \<and> products s' = products s \<and>
         verificationHistory s' = verificationHistory s"
  using assms
  by (auto simp add: transferOwnership_def modifier_defs Let_def split: if_splits)

lemma pause_frame:
  assumes "pause s c = Inr (s', r)"
  shows "locked s' = 0 \<and> serialVerified s' = serialVerified s \<and>
         serialToBatch s' = serialToBatch s \<and> products s' = products s \<and>
         verificationHistory s' = verificationHistory s"
  using assms
  by (auto simp add: pause_def modifier_defs split: if_splits)

lemma unpause_frame:
  assumes "unpause s c = Inr (s', r)"
  shows "locked s' = 0 \<and> serialVerified s' = serialVerified s \<and>
         serialToBatch s' = serialToBatch s \<and> products s' = products s \<and>
         verificationHistory s' = verificationHistory s"
  using assms
  by (auto simp add: unpause_def modifier_defs split: if_splits)

lemma updateProductMetadata_keeps:
  assumes "updateProductMetadata s c b i d u = Inr (s', r)"
  shows "locked s' = 0 \<and> serialVerified s' = serialVerified s \<and>
         serialToBatch s' = serialToBatch s \<and> products s' 0 = products s 0 \<and>
         verificationHistory s' = verificationHistory s"
  using updateProductMetadata_success [OF assms] by simp

lemma registerProduct_keeps:
  assumes "registerProduct s c t b n br hs i d u = Inr (s', r)"
  shows "locked s' = 0 \<and> serialVerified s' = serialVerified s \<and>
         products s' 0 = products s 0 \<and>
         (f \<notin> set hs \<longrightarrow> serialToBatch s' f = serialToBatch s f) \<and>
         verificationHistory s' = verificationHistory s"
  using registerProduct_success [OF assms] by simp

lemma verify_keeps:
  assumes "verify s c t h b = Inr (s', r)"
  shows "locked s' = 0 \<and> serialVerified s' = (serialVerified s)(h := True) \<and>
         serialToBatch s' = serialToBatch s \<and> products s' = products s \<and>
         (f \<noteq> h \<longrightarrow> verificationHistory s' f = verificationHistory s f) \<and>
         serialToBatch s h = b \<and> b \<noteq> 0 \<and> r = (\<not> serialVerified s h)"
  using verify_success [OF assms] by simp

lemma batchVerify_success:
  assumes "batchVerify s c t hs bs = Inr (s', rs)"
  shows "\<not> paused s \<and> locked s \<noteq> 1 \<and> length hs = length bs \<and>
         batch_entries_spec (s\<lparr>locked := 0\<rparr>) c t (zip hs bs) = Inr (s', rs)"
proof -
  from assms have g: "\<not> paused s" "locked s \<noteq> 1" "length hs = length bs"
    by (auto simp add: batchVerify_def modifier_defs split: if_splits)
  with batchVerify_refines_general [OF g, of c t] assms show ?thesis by simp
qed

subsection \<open>One authentic result per fingerprint\<close>

lemma batch_entries_spec_authentic:
  assumes "batch_entries_spec s c t es = Inr (s', rs)"
  shows "length (filter (\<lambda>(h, r). h = f \<and> r) (zip (map fst es) rs)) +
           (if serialVerified s' f then 0 else 1) \<le>
         (if serialVerified s f then 0 else (1 :: nat))"
  using assms
proof (induction es arbitrary: s rs)
  case Nil
  then show ?case by simp
next
  case (Cons x es)
  obtain h b where x: "x = (h, b)" by (cases x)
  show ?case
  proof (cases "entry_invalid s h b")
    case True
    with Cons.prems x obtain rs' where
      rest: "batch_entries_spec s c t es = Inr (s', rs')" and rs: "rs = False # rs'"
      by (auto split: sum.splits)
    from Cons.IH [OF rest] rs x show ?thesis by simp
  next
    case False
    with Cons.prems x obtain s1 r rs' where
      v: "verify s c t h b = Inr (s1, r)" and
      rest: "batch_entries_spec s1 c t es = Inr (s', rs')" and rs: "rs = r # rs'"
      by (auto split: sum.splits)
    from verify_keeps [OF v] have sv: "serialVerified s1 = (serialVerified s)(h := True)"
      and r: "r = (\<not> serialVerified s h)" by simp_all
    define k :: nat where "k = (if h = f \<and> r then 1 else 0)"
    define n where "n = length (filter (\<lambda>(h, r). h = f \<and> r) (zip (map fst es) rs'))"
    define a' :: nat where "a' = (if serialVerified s' f then 0 else 1)"
    define a1 :: nat where "a1 = (if serialVerified s1 f then 0 else 1)"
    define a :: nat where "a = (if serialVerified s f then 0 else 1)"
    have step: "k + a1 \<le> a"
      by (simp add: k_def a1_def a_def sv r)
    have ih: "n + a' \<le> a1"
      unfolding n_def a'_def a1_def by (rule Cons.IH [OF rest])
    have count: "length (filter (\<lambda>(h, r). h = f \<and> r) (zip (map fst (x # es)) rs)) = k + n"
      by (simp add: rs x k_def n_def)
    from step ih have "k + n + a' \<le> a" by linarith
    then show ?thesis
      unfolding count a'_def a_def .
  qed
qed

lemma outcome_Inl [simp]: "outcome s (Inl e) = s"
  by (simp add: outcome_def)

lemma outcome_Inr [simp]: "outcome s (Inr (s', v)) = s'"
  by (simp add: outcome_def)

lemma exec_authentic:
  "authentic_results f s x + (if serialVerified (exec s x) f then 0 else 1) \<le>
     (if serialVerified s f then 0 else (1 :: nat))"
proof -
  obtain c t k where x: "x = (c, t, k)" by (cases x)
  show ?thesis
  proof (cases k)
    case (AuthorizeManufacturer a g)
    show ?thesis
    proof (cases "authorizeManufacturer s c a g")
      case (Inl e)
      with x AuthorizeManufacturer show ?thesis by simp
    next
      case (Inr p)
      obtain s' r where p: "p = (s', r)" by (cases p)
      from authorizeManufacturer_frame [OF Inr [unfolded p]] x AuthorizeManufacturer Inr p
      show ?thesis by simp
    qed
  next
    case (RegisterProduct b n br hs i d u)
    show ?thesis
    proof (cases "registerProduct s c t b n br hs i d u")
      case (Inl e)
      with x RegisterProduct show ?thesis by simp
    next
      case (Inr p)
      obtain s' r where p: "p = (s', r)" by (cases p)
      from registerProduct_keeps [OF Inr [unfolded p]] x RegisterProduct Inr p
      show ?thesis by simp
    qed
  next
    case (Verify h b)
    show ?thesis
    proof (cases "verify s c t h b")
      case (Inl e)
      with x Verify show ?thesis by simp
    next
      case (Inr p)
      obtain s' r where p: "p = (s', r)" by (cases p)
      from verify_keeps [OF Inr [unfolded p]] x Verify Inr p
      show ?thesis by simp
    qed
  next
    case (TransferOwnership a)
    show ?thesis
    proof (cases "transferOwnership s c a")
      case (Inl e)
      with x TransferOwnership show ?thesis by simp
    next
      case (Inr p)
      obtain s' r where p: "p = (s', r)" by (cases p)
      from transferOwnership_frame [OF Inr [unfolded p]] x TransferOwnership Inr p
      show ?thesis by simp
    qed
  next
    case (BatchVerify hs bs)
    show ?thesis
    proof (cases "batchVerify s c t hs bs")
      case (Inl e)
      with x BatchVerify show ?thesis by simp
    next
      case (Inr p)
      obtain s' rs where p: "p = (s', rs)" by (cases p)
      from batchVerify_success [OF Inr [unfolded p]]
      have len: "length hs = length bs"
        and sp: "batch_entries_spec (s\<lparr>locked := 0\<rparr>) c t (zip hs bs) = Inr (s', rs)"
        by simp_all
      from len have "map fst (zip hs bs) = hs" by simp
      with batch_entries_spec_authentic [OF sp, of f] x BatchVerify Inr p
      show ?thesis by simp
    qed
  next
    case Pause
    show ?thesis
    proof (cases "pause s c")
      case (Inl e)
      with x Pause show ?thesis by simp
    next
      case (Inr p)
      obtain s' r where p: "p = (s', r)" by (cases p)
      from pause_frame [OF Inr [unfolded p]] x Pause Inr p
      show ?thesis by simp
    qed
  next
    case Unpause
    show ?thesis
    proof (cases "unpause s c")
      case (Inl e)
      with x Unpause show ?thesis by simp
    next
      case (Inr p)
      obtain s' r where p: "p = (s', r)" by (cases p)
      from unpause_frame [OF Inr [unfolded p]] x Unpause Inr p
      show ?thesis by simp
    qed
  next
    case (UpdateProductMetadata b i d u)
    show ?thesis
    proof (cases "updateProductMetadata s c b i d u")
      case (Inl e)
      with x UpdateProductMetadata show ?thesis by simp
    next
      case (Inr p)
      obtain s' r where p: "p = (s', r)" by (cases p)
      from updateProductMetadata_keeps [OF Inr [unfolded p]] x UpdateProductMetadata Inr p
      show ?thesis by simp
    qed
  qed
qed

lemma run_authentic:
  "authentic_total f s xs + (if serialVerified (run s xs) f then 0 else 1) \<le>
     (if serialVerified s f then 0 else (1 :: nat))"
proof (induction xs arbitrary: s)
  case Nil
  show ?case by simp
next
  case (Cons x xs)
  from Cons.IH [of "exec s x"] exec_authentic [of f s x] show ?case
    by (simp split: if_splits)
qed

text \<open>
  Claim C1. Along any list of transactions from any storage, the results \<open>True\<close>
  returned for a fingerprint \<open>f\<close>, by \<open>verify\<close> and in the entries of
  \<open>batchVerify\<close>, number at most one. If \<open>f\<close> is verified at the start there is
  none, and \<open>f\<close> is still verified at the end whatever the transactions are: no
  call resets the status. If there is one, \<open>f\<close> was not verified at the start and
  is verified at the end. The count of a run in two parts is the sum of the counts
  of the parts, so after a result \<open>True\<close> every later result for \<open>f\<close> is
  \<open>False\<close>. On a fresh contract no fingerprint is verified.
\<close>

theorem authentic_at_most_once:
  "authentic_total f s xs \<le> 1 \<and>
   (serialVerified s f \<longrightarrow> authentic_total f s xs = 0 \<and> serialVerified (run s xs) f) \<and>
   (authentic_total f s xs = 1 \<longrightarrow> \<not> serialVerified s f \<and> serialVerified (run s xs) f) \<and>
   authentic_total f s (xs @ ys) = authentic_total f s xs + authentic_total f (run s xs) ys \<and>
   \<not> serialVerified (constructor d) f"
proof -
  have split: "authentic_total f s (xs @ ys) =
      authentic_total f s xs + authentic_total f (run s xs) ys"
    by (induction xs arbitrary: s) simp_all
  have fresh: "\<not> serialVerified (constructor d) f"
    by (simp add: constructor_def)
  from run_authentic [of f s xs] split fresh show ?thesis
    by (simp split: if_splits)
qed

lemma widget_story_total: "authentic_total 11 (constructor 1) widget_story = 1"
  by (simp add: widget_story_def registerProduct_def verify_def batchVerify_def modifier_defs
      constructor_def checked_inc_def Let_def register_loop.simps batchVerify_loop.simps)

theorem authentic_at_most_once_witness:
  "authentic_total 11 (constructor 1) widget_story = 1 \<and>
   \<not> serialVerified (constructor 1) 11 \<and>
   serialVerified (run (constructor 1) widget_story) 11 \<and>
   authentic_total 11 (run (constructor 1) widget_story)
     [(4, 300, Verify 11 1), (4, 301, BatchVerify [11, 11] [1, 1])] = 0"
proof -
  note first = authentic_at_most_once [of 11 "constructor 1" widget_story "[]" 1]
  from first widget_story_total
  have v: "serialVerified (run (constructor 1) widget_story) 11" by simp
  note later = authentic_at_most_once [of 11 "run (constructor 1) widget_story"
      "[(4, 300, Verify 11 1), (4, 301, BatchVerify [11, 11] [1, 1])]" "[]" 1]
  from later v have "authentic_total 11 (run (constructor 1) widget_story)
     [(4, 300, Verify 11 1), (4, 301, BatchVerify [11, 11] [1, 1])] = 0" by blast
  with first widget_story_total v show ?thesis by simp
qed

subsection \<open>The guard is open between calls\<close>

text \<open>
  The properties above take a storage with \<open>locked = 0\<close>. This is every storage
  a call can start from: the constructor leaves the guard at its zero value, a
  call that returns resets it to zero, and a call that reverts changes nothing.
\<close>

lemma outcome_cases:
  assumes "\<And>e. r = Inl e \<Longrightarrow> P s" "\<And>s' v. r = Inr (s', v) \<Longrightarrow> P s'"
  shows "P (outcome s r)"
proof (cases r)
  case (Inl e)
  with assms(1) show ?thesis by simp
next
  case (Inr p)
  obtain s' v where "p = (s', v)" by (cases p)
  with Inr assms(2) show ?thesis by simp
qed

lemma exec_idle:
  assumes idle: "locked s = 0"
  shows "locked (exec s x) = 0"
proof -
  obtain c t k where x: "x = (c, t, k)" by (cases x)
  show ?thesis
  proof (cases k)
    case (AuthorizeManufacturer a g)
    show ?thesis unfolding x AuthorizeManufacturer exec.simps
      by (rule outcome_cases) (simp_all add: idle authorizeManufacturer_frame)
  next
    case (RegisterProduct b n br hs i d u)
    show ?thesis unfolding x RegisterProduct exec.simps
      by (rule outcome_cases) (simp_all add: idle registerProduct_keeps)
  next
    case (Verify h b)
    show ?thesis unfolding x Verify exec.simps
      by (rule outcome_cases) (simp_all add: idle verify_keeps)
  next
    case (TransferOwnership a)
    show ?thesis unfolding x TransferOwnership exec.simps
      by (rule outcome_cases) (simp_all add: idle transferOwnership_frame)
  next
    case (BatchVerify hs bs)
    show ?thesis unfolding x BatchVerify exec.simps
    proof (rule outcome_cases)
      fix s' rs
      assume "batchVerify s c t hs bs = Inr (s', rs)"
      from batchVerify_success [OF this]
      have "batch_entries_spec (s\<lparr>locked := 0\<rparr>) c t (zip hs bs) = Inr (s', rs)" by simp
      from batch_entries_spec_frame [OF this] show "locked s' = 0" by simp
    qed (rule idle)
  next
    case Pause
    show ?thesis unfolding x Pause exec.simps
      by (rule outcome_cases) (simp_all add: idle pause_frame)
  next
    case Unpause
    show ?thesis unfolding x Unpause exec.simps
      by (rule outcome_cases) (simp_all add: idle unpause_frame)
  next
    case (UpdateProductMetadata b i d u)
    show ?thesis unfolding x UpdateProductMetadata exec.simps
      by (rule outcome_cases) (simp_all add: idle updateProductMetadata_keeps)
  qed
qed

lemma run_idle: "locked s = 0 \<Longrightarrow> locked (run s xs) = 0"
  by (induction xs arbitrary: s) (simp_all add: exec_idle)

lemma reachable_idle: "locked (run (constructor d) xs) = 0"
  by (rule run_idle) (simp add: constructor_def)

subsection \<open>Fingerprints that were never registered\<close>

lemma batch_entries_spec_untouched:
  assumes "batch_entries_spec s c t es = Inr (s', rs)" "serialToBatch s f = 0"
  shows "serialVerified s' f = serialVerified s f \<and>
         verificationHistory s' f = verificationHistory s f"
  using assms
proof (induction es arbitrary: s rs)
  case Nil
  then show ?case by simp
next
  case (Cons x es)
  obtain h b where x: "x = (h, b)" by (cases x)
  show ?case
  proof (cases "entry_invalid s h b")
    case True
    with Cons.prems x obtain rs' where
      rest: "batch_entries_spec s c t es = Inr (s', rs')"
      by (auto split: sum.splits)
    from Cons.IH [OF rest Cons.prems(2)] show ?thesis .
  next
    case False
    with Cons.prems x obtain s1 r rs' where
      v: "verify s c t h b = Inr (s1, r)" and
      rest: "batch_entries_spec s1 c t es = Inr (s', rs')"
      by (auto split: sum.splits)
    note k = verify_keeps [OF v, of f]
    from k Cons.prems(2) have ne: "f \<noteq> h" by auto
    from k Cons.prems(2) have z: "serialToBatch s1 f = 0" by simp
    from k ne have "serialVerified s1 f = serialVerified s f"
      "verificationHistory s1 f = verificationHistory s f" by simp_all
    with Cons.IH [OF rest z] show ?thesis by simp
  qed
qed

lemma untouched_constructor: "untouched f (constructor d)"
  by (simp add: untouched_def constructor_def)

lemma untouched_verify:
  assumes "untouched f s"
  shows "verify s c t f b =
           Inl (if paused s then ContractPaused
                else if b = 0 then InvalidBatchId
                else if \<not> exists (products s b) then BatchNotFound
                else SerialNotInBatch)"
  using assms by (auto simp add: untouched_def verify_def modifier_defs)

lemma untouched_batchVerify:
  assumes u: "untouched f s" and ok: "batchVerify s c t fs bs = Inr (s', rs)"
  shows "untouched f s' \<and> (\<forall>i < length fs. fs ! i = f \<longrightarrow> \<not> rs ! i)"
proof -
  from u have idle: "locked s = 0" and z: "serialToBatch s f = 0"
    by (simp_all add: untouched_def)
  from idle have "s\<lparr>locked := 0\<rparr> = s" by simp
  with batchVerify_success [OF ok]
  have len: "length fs = length bs"
    and sp: "batch_entries_spec s c t (zip fs bs) = Inr (s', rs)" by simp_all
  from batch_entries_spec_frame [OF sp] batch_entries_spec_untouched [OF sp z] u
  have u': "untouched f s'" by (simp add: untouched_def)
  have "\<forall>i < length fs. fs ! i = f \<longrightarrow> \<not> rs ! i"
  proof (intro allI impI)
    fix i
    assume i: "i < length fs" and f: "fs ! i = f"
    from i len have "i < length (zip fs bs)" by simp
    moreover from i len f z
    have "entry_invalid s (fst (zip fs bs ! i)) (snd (zip fs bs ! i))"
      by (auto simp add: entry_invalid_def)
    ultimately show "\<not> rs ! i"
      by (rule batch_entries_spec_invalid_slot [OF sp])
  qed
  with u' show ?thesis by simp
qed

lemma exec_untouched:
  assumes u: "untouched f s" and ns: "\<not> supplies f s x"
  shows "untouched f (exec s x)"
proof -
  obtain c t k where x: "x = (c, t, k)" by (cases x)
  show ?thesis
  proof (cases k)
    case (AuthorizeManufacturer a g)
    show ?thesis
    proof (cases "authorizeManufacturer s c a g")
      case (Inl e)
      with x AuthorizeManufacturer u show ?thesis by simp
    next
      case (Inr p)
      obtain s' r where p: "p = (s', r)" by (cases p)
      from authorizeManufacturer_frame [OF Inr [unfolded p]] x AuthorizeManufacturer Inr p u
      show ?thesis by (simp add: untouched_def)
    qed
  next
    case (RegisterProduct b n br hs i d u')
    show ?thesis
    proof (cases "registerProduct s c t b n br hs i d u'")
      case (Inl e)
      with x RegisterProduct u show ?thesis by simp
    next
      case (Inr p)
      obtain s' r where p: "p = (s', r)" by (cases p)
      from ns x RegisterProduct Inr have "f \<notin> set hs" by simp
      with registerProduct_keeps [OF Inr [unfolded p], of f] x RegisterProduct Inr p u
      show ?thesis by (simp add: untouched_def)
    qed
  next
    case (Verify h b)
    show ?thesis
    proof (cases "verify s c t h b")
      case (Inl e)
      with x Verify u show ?thesis by simp
    next
      case (Inr p)
      obtain s' r where p: "p = (s', r)" by (cases p)
      note k = verify_keeps [OF Inr [unfolded p], of f]
      from k u have "f \<noteq> h" by (auto simp add: untouched_def)
      with k x Verify Inr p u show ?thesis by (simp add: untouched_def)
    qed
  next
    case (TransferOwnership a)
    show ?thesis
    proof (cases "transferOwnership s c a")
      case (Inl e)
      with x TransferOwnership u show ?thesis by simp
    next
      case (Inr p)
      obtain s' r where p: "p = (s', r)" by (cases p)
      from transferOwnership_frame [OF Inr [unfolded p]] x TransferOwnership Inr p u
      show ?thesis by (simp add: untouched_def)
    qed
  next
    case (BatchVerify hs bs)
    show ?thesis
    proof (cases "batchVerify s c t hs bs")
      case (Inl e)
      with x BatchVerify u show ?thesis by simp
    next
      case (Inr p)
      obtain s' rs where p: "p = (s', rs)" by (cases p)
      from untouched_batchVerify [OF u Inr [unfolded p]] x BatchVerify Inr p
      show ?thesis by simp
    qed
  next
    case Pause
    show ?thesis
    proof (cases "pause s c")
      case (Inl e)
      with x Pause u show ?thesis by simp
    next
      case (Inr p)
      obtain s' r where p: "p = (s', r)" by (cases p)
      from pause_frame [OF Inr [unfolded p]] x Pause Inr p u
      show ?thesis by (simp add: untouched_def)
    qed
  next
    case Unpause
    show ?thesis
    proof (cases "unpause s c")
      case (Inl e)
      with x Unpause u show ?thesis by simp
    next
      case (Inr p)
      obtain s' r where p: "p = (s', r)" by (cases p)
      from unpause_frame [OF Inr [unfolded p]] x Unpause Inr p u
      show ?thesis by (simp add: untouched_def)
    qed
  next
    case (UpdateProductMetadata b i d u')
    show ?thesis
    proof (cases "updateProductMetadata s c b i d u'")
      case (Inl e)
      with x UpdateProductMetadata u show ?thesis by simp
    next
      case (Inr p)
      obtain s' r where p: "p = (s', r)" by (cases p)
      from updateProductMetadata_keeps [OF Inr [unfolded p]] x UpdateProductMetadata Inr p u
      show ?thesis by (simp add: untouched_def)
    qed
  qed
qed

lemma run_untouched:
  assumes "untouched f s" "\<not> ever_supplied f s xs"
  shows "untouched f (run s xs)"
  using assms
proof (induction xs arbitrary: s)
  case Nil
  then show ?case by simp
next
  case (Cons x xs)
  from Cons.prems have "untouched f (exec s x)" "\<not> ever_supplied f (exec s x) xs"
    by (simp_all add: exec_untouched)
  then show ?case by (simp add: Cons.IH)
qed

text \<open>
  Claim C10, as amended. Let \<open>s\<close> be the storage after any list of transactions on
  a fresh contract in which no successful \<open>registerProduct\<close> supplied the
  fingerprint \<open>f\<close>. Then the recorded batch of \<open>f\<close> is zero, \<open>f\<close> is not verified,
  its history is empty, and batch 0 does not exist. Every \<open>verify\<close> of \<open>f\<close>
  reverts: with \<open>ContractPaused\<close> while the contract is paused, and otherwise with
  \<open>InvalidBatchId\<close> for batch 0, \<open>BatchNotFound\<close> for an unregistered batch and
  \<open>SerialNotInBatch\<close> for a registered one. Every \<open>batchVerify\<close> that returns
  gives \<open>False\<close> in each slot whose fingerprint is \<open>f\<close> and leaves \<open>f\<close> unverified
  with an empty history.
\<close>

theorem unregistered_never_authentic:
  assumes never: "\<not> ever_supplied f (constructor d) xs"
    and reached: "s = run (constructor d) xs"
  shows "serialToBatch s f = 0 \<and> \<not> serialVerified s f \<and> verificationHistory s f = [] \<and>
     \<not> exists (products s 0) \<and>
     (\<forall>c t b. verify s c t f b =
        Inl (if paused s then ContractPaused
             else if b = 0 then InvalidBatchId
             else if \<not> exists (products s b) then BatchNotFound
             else SerialNotInBatch)) \<and>
     (\<forall>c t fs bs s' rs. batchVerify s c t fs bs = Inr (s', rs) \<longrightarrow>
        (\<forall>i < length fs. fs ! i = f \<longrightarrow> \<not> rs ! i) \<and>
        \<not> serialVerified s' f \<and> verificationHistory s' f = [])"
proof -
  have u: "untouched f s"
    unfolding reached by (rule run_untouched [OF untouched_constructor never])
  then have fields: "serialToBatch s f = 0" "\<not> serialVerified s f"
    "verificationHistory s f = []" "\<not> exists (products s 0)"
    by (simp_all add: untouched_def)
  have v: "\<forall>c t b. verify s c t f b =
        Inl (if paused s then ContractPaused
             else if b = 0 then InvalidBatchId
             else if \<not> exists (products s b) then BatchNotFound
             else SerialNotInBatch)"
    using untouched_verify [OF u] by blast
  have bv: "\<forall>c t fs bs s' rs. batchVerify s c t fs bs = Inr (s', rs) \<longrightarrow>
        (\<forall>i < length fs. fs ! i = f \<longrightarrow> \<not> rs ! i) \<and>
        \<not> serialVerified s' f \<and> verificationHistory s' f = []"
  proof (intro allI impI)
    fix c t fs bs s' rs
    assume "batchVerify s c t fs bs = Inr (s', rs)"
    from untouched_batchVerify [OF u this]
    show "(\<forall>i < length fs. fs ! i = f \<longrightarrow> \<not> rs ! i) \<and>
        \<not> serialVerified s' f \<and> verificationHistory s' f = []"
      by (simp add: untouched_def)
  qed
  from fields v bv show ?thesis by (intro conjI)
qed

lemma widget_story_skips_13: "\<not> ever_supplied 13 (constructor 1) widget_story"
  by (simp add: widget_story_def registerProduct_def verify_def batchVerify_def modifier_defs
      constructor_def checked_inc_def Let_def register_loop.simps batchVerify_loop.simps)

lemma widget_story_running: "\<not> paused (run (constructor 1) widget_story)"
  by (simp add: widget_story_def registerProduct_def verify_def batchVerify_def modifier_defs
      constructor_def checked_inc_def Let_def register_loop.simps batchVerify_loop.simps)

lemma widget_story_batch: "exists (products (run (constructor 1) widget_story) 1)"
  by (simp add: widget_story_def registerProduct_def verify_def batchVerify_def modifier_defs
      constructor_def checked_inc_def Let_def register_loop.simps batchVerify_loop.simps)

theorem unregistered_never_authentic_witness:
  "\<not> ever_supplied 13 (constructor 1) widget_story \<and>
   serialToBatch (run (constructor 1) widget_story) 13 = 0 \<and>
   \<not> serialVerified (run (constructor 1) widget_story) 13 \<and>
   verificationHistory (run (constructor 1) widget_story) 13 = [] \<and>
   verify (run (constructor 1) widget_story) 2 300 13 0 = Inl InvalidBatchId \<and>
   verify (run (constructor 1) widget_story) 2 300 13 1 = Inl SerialNotInBatch"
proof -
  note t = unregistered_never_authentic [OF widget_story_skips_13 refl]
  from t have "verify (run (constructor 1) widget_story) 2 300 13 0 = Inl InvalidBatchId"
    using widget_story_running by simp
  moreover from t
  have "verify (run (constructor 1) widget_story) 2 300 13 1 = Inl SerialNotInBatch"
    using widget_story_running widget_story_batch by simp
  ultimately show ?thesis using t widget_story_skips_13 by simp
qed

text \<open>
  Claim C10 as stated fails on the paused contract: the \<open>verify\<close> of the
  unregistered fingerprint 13 reverts with \<open>ContractPaused\<close>, which is none of
  \<open>InvalidBatchId\<close>, \<open>BatchNotFound\<close> and \<open>SerialNotInBatch\<close>.
\<close>

theorem unregistered_never_authentic_counterexample:
  "\<not> ever_supplied 13 (constructor 1) [(1, 100, Pause)] \<and>
   run (constructor 1) [(1, 100, Pause)] = paused_state \<and>
   verify paused_state 2 300 13 1 = Inl ContractPaused \<and>
   verify paused_state 2 300 13 1 \<noteq> Inl InvalidBatchId \<and>
   verify paused_state 2 300 13 1 \<noteq> Inl BatchNotFound \<and>
   verify paused_state 2 300 13 1 \<noteq> Inl SerialNotInBatch"
  by (simp add: pause_def verify_def modifier_defs constructor_def paused_state_def)

subsection \<open>The later registration wins\<close>

lemma exec_keeps_batch:
  assumes ex: "exists (products s b)"
  shows "exists (products (exec s x) b)"
proof -
  obtain c t k where x: "x = (c, t, k)" by (cases x)
  show ?thesis
  proof (cases k)
    case (AuthorizeManufacturer a g)
    show ?thesis unfolding x AuthorizeManufacturer exec.simps
      by (rule outcome_cases) (simp_all add: ex authorizeManufacturer_frame)
  next
    case (RegisterProduct b' n br hs i d u)
    show ?thesis unfolding x RegisterProduct exec.simps
    proof (rule outcome_cases)
      fix s' v
      assume "registerProduct s c t b' n br hs i d u = Inr (s', v)"
      from registerProduct_success [OF this] ex show "exists (products s' b)" by simp
    qed (rule ex)
  next
    case (Verify h b')
    show ?thesis unfolding x Verify exec.simps
      by (rule outcome_cases) (simp_all add: ex verify_keeps)
  next
    case (TransferOwnership a)
    show ?thesis unfolding x TransferOwnership exec.simps
      by (rule outcome_cases) (simp_all add: ex transferOwnership_frame)
  next
    case (BatchVerify hs bs)
    show ?thesis unfolding x BatchVerify exec.simps
    proof (rule outcome_cases)
      fix s' rs
      assume "batchVerify s c t hs bs = Inr (s', rs)"
      from batchVerify_success [OF this]
      have "batch_entries_spec (s\<lparr>locked := 0\<rparr>) c t (zip hs bs) = Inr (s', rs)" by simp
      from batch_entries_spec_frame [OF this] ex show "exists (products s' b)" by simp
    qed (rule ex)
  next
    case Pause
    show ?thesis unfolding x Pause exec.simps
      by (rule outcome_cases) (simp_all add: ex pause_frame)
  next
    case Unpause
    show ?thesis unfolding x Unpause exec.simps
      by (rule outcome_cases) (simp_all add: ex unpause_frame)
  next
    case (UpdateProductMetadata b' i d u)
    show ?thesis unfolding x UpdateProductMetadata exec.simps
    proof (rule outcome_cases)
      fix s' v
      assume "updateProductMetadata s c b' i d u = Inr (s', v)"
      from updateProductMetadata_success [OF this] ex show "exists (products s' b)" by simp
    qed (rule ex)
  qed
qed

lemma run_keeps_batch: "exists (products s b) \<Longrightarrow> exists (products (run s xs) b)"
  by (induction xs arbitrary: s) (simp_all add: exec_keeps_batch)

lemma exec_keeps_membership:
  assumes ns: "\<not> supplies f s x"
  shows "serialToBatch (exec s x) f = serialToBatch s f"
proof -
  obtain c t k where x: "x = (c, t, k)" by (cases x)
  show ?thesis
  proof (cases k)
    case (AuthorizeManufacturer a g)
    show ?thesis unfolding x AuthorizeManufacturer exec.simps
      by (rule outcome_cases) (simp_all add: authorizeManufacturer_frame)
  next
    case (RegisterProduct b' n br hs i d u)
    show ?thesis unfolding x RegisterProduct exec.simps
    proof (rule outcome_cases)
      fix s' v
      assume ok: "registerProduct s c t b' n br hs i d u = Inr (s', v)"
      with ns x RegisterProduct have "f \<notin> set hs" by simp
      with registerProduct_keeps [OF ok, of f]
      show "serialToBatch s' f = serialToBatch s f" by simp
    qed (rule refl)
  next
    case (Verify h b')
    show ?thesis unfolding x Verify exec.simps
      by (rule outcome_cases) (simp_all add: verify_keeps)
  next
    case (TransferOwnership a)
    show ?thesis unfolding x TransferOwnership exec.simps
      by (rule outcome_cases) (simp_all add: transferOwnership_frame)
  next
    case (BatchVerify hs bs)
    show ?thesis unfolding x BatchVerify exec.simps
    proof (rule outcome_cases)
      fix s' rs
      assume "batchVerify s c t hs bs = Inr (s', rs)"
      from batchVerify_success [OF this]
      have "batch_entries_spec (s\<lparr>locked := 0\<rparr>) c t (zip hs bs) = Inr (s', rs)" by simp
      from batch_entries_spec_frame [OF this]
      show "serialToBatch s' f = serialToBatch s f" by simp
    qed (rule refl)
  next
    case Pause
    show ?thesis unfolding x Pause exec.simps
      by (rule outcome_cases) (simp_all add: pause_frame)
  next
    case Unpause
    show ?thesis unfolding x Unpause exec.simps
      by (rule outcome_cases) (simp_all add: unpause_frame)
  next
    case (UpdateProductMetadata b' i d u)
    show ?thesis unfolding x UpdateProductMetadata exec.simps
      by (rule outcome_cases) (simp_all add: updateProductMetadata_keeps)
  qed
qed

lemma run_keeps_membership:
  "\<not> ever_supplied f s xs \<Longrightarrow> serialToBatch (run s xs) f = serialToBatch s f"
  by (induction xs arbitrary: s) (simp_all add: exec_keeps_membership)

lemma verify_other_batch:
  assumes "locked s = 0" "b \<noteq> 0" "exists (products s b)" "serialToBatch s f \<noteq> b"
  shows "verify s c t f b = Inl (if paused s then ContractPaused else SerialNotInBatch)"
  using assms by (simp add: verify_def modifier_defs)

text \<open>
  Claim C6, as amended. Let a \<open>registerProduct\<close> for batch \<open>b1\<close> succeed, then
  any transactions run, then a \<open>registerProduct\<close> for batch \<open>b2\<close> succeed, both
  supplying the serial \<open>f\<close>, and then any transactions run of which none is a
  successful registration supplying \<open>f\<close>. Then \<open>b1\<close> and \<open>b2\<close> differ, \<open>f\<close> is
  recorded under \<open>b1\<close> after the first registration and under \<open>b2\<close> from the
  second one on, and \<open>b1\<close> is still registered. At the end \<open>verify f b\<close>, for
  every nonzero registered \<open>b\<close> other than the recorded batch of \<open>f\<close>, in
  particular for \<open>b1\<close>, reverts with \<open>SerialNotInBatch\<close> when the contract is
  running and with \<open>ContractPaused\<close> when it is paused. The same holds of
  \<open>verify\<close> on any idle storage, for any fingerprint and any nonzero registered
  batch other than its recorded one.
\<close>

theorem register_last_write_wins:
  assumes first: "registerProduct s c1 t1 b1 n1 br1 hs1 i1 d1 u1 = Inr (s1, r1)"
    and second: "registerProduct (run s1 ys) c2 t2 b2 n2 br2 hs2 i2 d2 u2 = Inr (s2, r2)"
    and later: "\<not> ever_supplied f s2 zs"
    and in1: "f \<in> set hs1" and in2: "f \<in> set hs2"
  shows "b1 \<noteq> b2 \<and> serialToBatch s1 f = b1 \<and> serialToBatch s2 f = b2 \<and>
     serialToBatch (run s2 zs) f = b2 \<and>
     b1 \<noteq> 0 \<and> exists (products (run s2 zs) b1) \<and>
     verify (run s2 zs) c t f b1 =
       Inl (if paused (run s2 zs) then ContractPaused else SerialNotInBatch) \<and>
     (\<forall>b. b \<noteq> 0 \<and> exists (products (run s2 zs) b) \<and> b \<noteq> serialToBatch (run s2 zs) f \<longrightarrow>
        verify (run s2 zs) c t f b =
          Inl (if paused (run s2 zs) then ContractPaused else SerialNotInBatch)) \<and>
     (\<forall>q c' t' g b. locked q = 0 \<and> b \<noteq> 0 \<and> exists (products q b) \<and> serialToBatch q g \<noteq> b \<longrightarrow>
        verify q c' t' g b = Inl (if paused q then ContractPaused else SerialNotInBatch))"
proof -
  note p1 = registerProduct_success [OF first]
  note p2 = registerProduct_success [OF second]
  from p1 in1 have ex1: "exists (products s1 b1)" and nz1: "b1 \<noteq> 0"
    and m1: "serialToBatch s1 f = b1"
    by simp_all
  from ex1 have exm: "exists (products (run s1 ys) b1)" by (rule run_keeps_batch)
  from p2 have fresh: "\<not> exists (products (run s1 ys) b2)" by simp
  from exm fresh have ne: "b1 \<noteq> b2" by auto
  from p2 in2 have m2: "serialToBatch s2 f = b2" and idle2: "locked s2 = 0"
    by simp_all
  from p2 exm ne have ex2: "exists (products s2 b1)" by simp
  let ?s3 = "run s2 zs"
  from later m2 have m3: "serialToBatch ?s3 f = b2" by (simp add: run_keeps_membership)
  from ex2 have ex3: "exists (products ?s3 b1)" by (rule run_keeps_batch)
  from idle2 have idle3: "locked ?s3 = 0" by (rule run_idle)
  have v1: "verify ?s3 c t f b1 =
       Inl (if paused ?s3 then ContractPaused else SerialNotInBatch)"
    using idle3 nz1 ex3 m3 ne by (intro verify_other_batch) simp_all
  have vall: "\<forall>b. b \<noteq> 0 \<and> exists (products ?s3 b) \<and> b \<noteq> serialToBatch ?s3 f \<longrightarrow>
        verify ?s3 c t f b = Inl (if paused ?s3 then ContractPaused else SerialNotInBatch)"
  proof (intro allI impI)
    fix b
    assume "b \<noteq> 0 \<and> exists (products ?s3 b) \<and> b \<noteq> serialToBatch ?s3 f"
    then show "verify ?s3 c t f b =
        Inl (if paused ?s3 then ContractPaused else SerialNotInBatch)"
      using idle3 by (intro verify_other_batch) auto
  qed
  have vany: "\<forall>q c' t' g b. locked q = 0 \<and> b \<noteq> 0 \<and> exists (products q b) \<and>
        serialToBatch q g \<noteq> b \<longrightarrow>
        verify q c' t' g b = Inl (if paused q then ContractPaused else SerialNotInBatch)"
  proof (intro allI impI)
    fix q :: contract and c' t' g b
    assume "locked q = 0 \<and> b \<noteq> 0 \<and> exists (products q b) \<and> serialToBatch q g \<noteq> b"
    then show "verify q c' t' g b =
        Inl (if paused q then ContractPaused else SerialNotInBatch)"
      by (intro verify_other_batch) simp_all
  qed
  from ne m1 m2 m3 nz1 ex3 v1 vall vany show ?thesis by (intro conjI)
qed

lemma interleaved_second_registered:
  "registerProduct (run widget_state [(2, 120, Verify 12 1)]) 1 150 2 ''Gadget'' ''Acme'' [11]
     [] [] [] = Inr (interleaved_second, ())"
  by (simp add: interleaved_second_def interleaved_mid_def registerProduct_def verify_def
      modifier_defs widget_state_def constructor_def checked_inc_def Let_def
      register_loop.simps)

lemma interleaved_later:
  "\<not> ever_supplied 11 interleaved_second [(3, 160, Verify 12 1), (1, 170, Unpause)]"
  by simp

lemma interleaved_running:
  "\<not> paused (run interleaved_second [(3, 160, Verify 12 1), (1, 170, Unpause)])"
  by (simp add: interleaved_second_def interleaved_mid_def registerProduct_def verify_def
      unpause_def modifier_defs widget_state_def constructor_def checked_inc_def Let_def
      register_loop.simps)

theorem register_last_write_wins_witness:
  "registerProduct (constructor 1) 1 100 1 ''Widget'' ''Acme'' [11, 12] [] [] [] =
     Inr (widget_state, ()) \<and>
   registerProduct (run widget_state [(2, 120, Verify 12 1)]) 1 150 2 ''Gadget'' ''Acme'' [11]
     [] [] [] = Inr (interleaved_second, ()) \<and>
   \<not> ever_supplied 11 interleaved_second [(3, 160, Verify 12 1), (1, 170, Unpause)] \<and>
   (11 :: bytes32) \<in> set [11, 12] \<and> (11 :: bytes32) \<in> set [11] \<and>
   serialToBatch widget_state 11 = 1 \<and>
   serialToBatch (run interleaved_second [(3, 160, Verify 12 1), (1, 170, Unpause)]) 11 = 2 \<and>
   verify (run interleaved_second [(3, 160, Verify 12 1), (1, 170, Unpause)]) 3 200 11 1 =
     Inl SerialNotInBatch"
proof -
  have in1: "(11 :: bytes32) \<in> set [11, 12]" and in2: "(11 :: bytes32) \<in> set [11]"
    by simp_all
  from register_last_write_wins [OF widget_state_registered interleaved_second_registered
      interleaved_later in1 in2, of 3 200]
    widget_state_registered interleaved_second_registered interleaved_later in1 in2
    interleaved_running
  show ?thesis by simp
qed

lemma regrouped_paused_state_reached:
  "pause regrouped_state 1 = Inr (regrouped_paused_state, ())"
  by (simp add: pause_def modifier_defs regrouped_paused_state_def regrouped_state_def
      widget_state_def constructor_def)

text \<open>
  Claim C6 as stated fails once the contract is paused after the two
  registrations: serial 11 is recorded under batch 2, batch 1 is nonzero and
  registered, and \<open>verify 11 1\<close> reverts with \<open>ContractPaused\<close>, not with
  \<open>SerialNotInBatch\<close>.
\<close>

theorem register_last_write_wins_counterexample:
  "registerProduct (constructor 1) 1 100 1 ''Widget'' ''Acme'' [11, 12] [] [] [] =
     Inr (widget_state, ()) \<and>
   registerProduct widget_state 1 150 2 ''Gadget'' ''Acme'' [11] [] [] [] =
     Inr (regrouped_state, ()) \<and>
   pause regrouped_state 1 = Inr (regrouped_paused_state, ()) \<and>
   serialToBatch regrouped_paused_state 11 = 2 \<and>
   (1 :: uint256) \<noteq> 0 \<and> exists (products regrouped_paused_state 1) \<and>
   verify regrouped_paused_state 3 200 11 1 = Inl ContractPaused \<and>
   verify regrouped_paused_state 3 200 11 1 \<noteq> Inl SerialNotInBatch"
  by (simp add: widget_state_registered regrouped_state_registered
      regrouped_paused_state_reached)
     (simp add: verify_def modifier_defs regrouped_paused_state_def regrouped_state_def
      widget_state_def constructor_def)

end
